theory Spec2Isabelle
  imports Complex_Main "HOL-Library.Sublist" "HOL-Library.AList"
begin

section \<open>Strings and numbers of the source language\<close>

text \<open>
  A JavaScript string is a sequence of UTF-16 code units.  The model uses \<^typ>\<open>string\<close>:
  a \<^typ>\<open>char\<close> stands for a code unit below 256 (ASCII and Latin-1), which covers every
  character the patterns of the scraper name.  The length of a string is its number of
  code units, as \<^verbatim>\<open>text.length\<close> counts.
\<close>

definition is_digit :: "char \<Rightarrow> bool" where
  \<comment> \<open>\<^verbatim>\<open>\d\<close> and \<^verbatim>\<open>[0-9]\<close>\<close>
  "is_digit c \<longleftrightarrow> c \<in> set ''0123456789''"

definition is_space :: "char \<Rightarrow> bool" where
  \<comment> \<open>\<^verbatim>\<open>\s\<close>, and what \<^verbatim>\<open>trim\<close> removes: TAB, LF, VT, FF, CR, SP and NBSP
      (the white space and line terminators below 256)\<close>
  "is_space c \<longleftrightarrow> (of_char c :: int) \<in> {9, 10, 11, 12, 13, 32, 160}"

definition is_num_char :: "char \<Rightarrow> bool" where
  \<comment> \<open>\<^verbatim>\<open>[0-9,]\<close>\<close>
  "is_num_char c \<longleftrightarrow> is_digit c \<or> c = CHR '',''"

definition is_word_char :: "char \<Rightarrow> bool" where
  \<comment> \<open>the word characters of \<^verbatim>\<open>\b\<close>: \<^verbatim>\<open>[A-Za-z0-9_]\<close>\<close>
  "is_word_char c \<longleftrightarrow>
     c \<in> set ''ABCDEFGHIJKLMNOPQRSTUVWXYZabcdefghijklmnopqrstuvwxyz0123456789_''"

definition is_name_char :: "char \<Rightarrow> bool" where
  \<comment> \<open>\<^verbatim>\<open>[A-Za-z0-9'\<dots>\- :]\<close> of \<^verbatim>\<open>fallbackNameFromText\<close>; its typographic apostrophe
      (U+2019) lies outside the code units modelled\<close>
  "is_name_char c \<longleftrightarrow>
     c \<in> set ''ABCDEFGHIJKLMNOPQRSTUVWXYZabcdefghijklmnopqrstuvwxyz0123456789'' \<or>
     c \<in> {CHR 0x27, CHR ''-'', CHR '' '', CHR '':''}"

definition lower_char :: "char \<Rightarrow> char" where
  \<comment> \<open>\<^verbatim>\<open>toLowerCase\<close> on one code unit: A-Z, and the Latin-1 capitals but the
      multiplication sign\<close>
  "lower_char c =
     (let n = (of_char c :: int) in
      if (65 \<le> n \<and> n \<le> 90) \<or> (192 \<le> n \<and> n \<le> 222 \<and> n \<noteq> 215)
      then char_of (n + 32) else c)"

definition upper_char :: "char \<Rightarrow> char" where
  \<comment> \<open>the canonical form the \<^verbatim>\<open>i\<close> flag compares: \<^verbatim>\<open>toUpperCase\<close> where it stays one
      code unit of the same range\<close>
  "upper_char c =
     (let n = (of_char c :: int) in
      if (97 \<le> n \<and> n \<le> 122) \<or> (224 \<le> n \<and> n \<le> 254 \<and> n \<noteq> 247)
      then char_of (n - 32) else c)"

definition toLowerCase :: "string \<Rightarrow> string" where
  "toLowerCase s = map lower_char s"

definition includes_str :: "string \<Rightarrow> string \<Rightarrow> bool" where
  \<comment> \<open>\<^verbatim>\<open>s.includes(q)\<close>\<close>
  "includes_str s q \<longleftrightarrow> sublist q s"

definition strip_ws :: "string \<Rightarrow> string" where
  \<comment> \<open>\<^verbatim>\<open>s.replace(/\s+/g, "")\<close>: every run of white space is deleted\<close>
  "strip_ws s = filter (\<lambda>c. \<not> is_space c) s"

fun collapse_run :: "bool \<Rightarrow> string \<Rightarrow> string" where
  \<comment> \<open>the flag says that the characters just before belong to a run of white space
      that has already given its space\<close>
  "collapse_run in_run [] = []"
| "collapse_run in_run (c # cs) =
     (if is_space c then (if in_run then collapse_run True cs else CHR '' '' # collapse_run True cs)
      else c # collapse_run False cs)"

definition collapse_ws :: "string \<Rightarrow> string" where
  \<comment> \<open>\<^verbatim>\<open>s.replace(/\s+/g, " ")\<close>: every maximal run of white space becomes one space\<close>
  "collapse_ws s = collapse_run False s"

definition trim :: "string \<Rightarrow> string" where
  "trim s = rev (dropWhile is_space (rev (dropWhile is_space s)))"

definition normalize_text :: "string \<Rightarrow> string" where
  \<comment> \<open>\<^verbatim>\<open>$el.text().replace(/\s+/g, " ").trim()\<close>\<close>
  "normalize_text s = trim (collapse_ws s)"

text \<open>
  A JavaScript number is an IEEE double or one of NaN and the infinities.  The finite
  values are rationals.
\<close>

datatype number = NaN | NegInfinity | Finite rat | Infinity

function exponent_of :: "int \<Rightarrow> nat" where
  \<comment> \<open>how many low bits an integer has beyond the 53 bits of a double's significand\<close>
  "exponent_of n = (if n < 2 ^ 53 then 0 else Suc (exponent_of (n div 2)))"
  by pat_completeness auto
termination
  by (relation "measure nat") auto

declare exponent_of.simps [simp del]

definition Number_of_int :: "int \<Rightarrow> number" where
  \<comment> \<open>\<^verbatim>\<open>Number(m)\<close> for a string of decimal digits denoting \<open>n\<close>: the double nearest
      to \<open>n\<close>, ties to the even significand, \<^verbatim>\<open>Infinity\<close> from \<open>2 ^ 1024\<close> on\<close>
  "Number_of_int n =
     (let e = exponent_of n;
          q = n div 2 ^ e;
          r = n mod 2 ^ e;
          q' = (if 2 ^ e < 2 * r \<or> (2 * r = 2 ^ e \<and> odd q) then q + 1 else q);
          v = q' * 2 ^ e
      in if 2 ^ 1024 \<le> v then Infinity else Finite (of_int v))"

definition digit_val :: "char \<Rightarrow> int" where
  "digit_val c = of_char c - 48"

definition decimal :: "string \<Rightarrow> int" where
  \<comment> \<open>the value of a string of decimal digits\<close>
  "decimal ds = foldl (\<lambda>acc c. 10 * acc + digit_val c) 0 ds"

definition cleanNum :: "string \<Rightarrow> number option" where
  \<comment> \<open>\<^verbatim>\<open>if (!s) return null; const m = String(s).replace(/[^\d]/g, "");
      return m ? Number(m) : null;\<close>\<close>
  "cleanNum s =
     (if s = [] then None
      else let m = filter is_digit s
           in if m \<noteq> [] then Some (Number_of_int (decimal m)) else None)"

section \<open>Regular expressions\<close>

text \<open>
  The patterns of the scraper are matched as JavaScript matches them: by backtracking,
  leftmost start first, greedy repetitions trying the longest count first.  A matcher
  maps a state to the list of states it can end in, in the order backtracking tries them;
  the head of the list is the match \<^verbatim>\<open>exec\<close> reports.
\<close>

datatype rx =
    Eps                        \<comment> \<open>the empty pattern\<close>
  | Cls "char \<Rightarrow> bool"          \<comment> \<open>one character of a class\<close>
  | Seq rx rx                  \<comment> \<open>concatenation\<close>
  | Alt rx rx                  \<comment> \<open>\<^verbatim>\<open>a|b\<close>\<close>
  | Rep nat "nat option" rx    \<comment> \<open>greedy \<^verbatim>\<open>{min,max}\<close>; no maximum for \<^verbatim>\<open>*\<close> and \<^verbatim>\<open>+\<close>\<close>
  | Grp nat rx                 \<comment> \<open>capturing group with its number\<close>
  | WordB                      \<comment> \<open>\<^verbatim>\<open>\b\<close>\<close>

datatype mstate = MState
  (prev: "char option")            \<comment> \<open>the character before the current position\<close>
  (rest: string)                   \<comment> \<open>the input from the current position on\<close>
  (caps: "nat \<Rightarrow> string option")   \<comment> \<open>the captures so far\<close>

primrec groups :: "rx \<Rightarrow> nat list" where
  "groups Eps = []"
| "groups (Cls p) = []"
| "groups (Seq a b) = groups a @ groups b"
| "groups (Alt a b) = groups a @ groups b"
| "groups (Rep mn mx r) = groups r"
| "groups (Grp n r) = n # groups r"
| "groups WordB = []"

definition clear_caps :: "nat list \<Rightarrow> mstate \<Rightarrow> mstate" where
  "clear_caps gs x = MState (prev x) (rest x) (\<lambda>n. if n \<in> set gs then None else caps x n)"

definition dec_max :: "nat option \<Rightarrow> nat option" where
  "dec_max mx = map_option (\<lambda>k. k - 1) mx"

function rep_ms ::
  "(mstate \<Rightarrow> mstate list) \<Rightarrow> nat list \<Rightarrow> nat \<Rightarrow> nat option \<Rightarrow> mstate \<Rightarrow> mstate list" where
  "rep_ms m gs mn mx x =
     (if mx = Some 0 then [x]
      else
        let inner = concat (map (\<lambda>y.
              \<comment> \<open>an iteration beyond the minimum that consumes nothing is rejected\<close>
              if mn = 0 \<and> \<not> length (rest y) < length (rest x) then []
              else rep_ms m gs (mn - 1) (dec_max mx) y) (m (clear_caps gs x)))
        in if mn \<noteq> 0 then inner else inner @ [x])"
  by pat_completeness auto
termination
  by (relation "measures [\<lambda>(m, gs, mn, mx, x). mn, \<lambda>(m, gs, mn, mx, x). length (rest x)]") auto

declare rep_ms.simps [simp del]

primrec ms :: "rx \<Rightarrow> mstate \<Rightarrow> mstate list" where
  "ms Eps = (\<lambda>x. [x])"
| "ms (Cls p) = (\<lambda>x.
     case rest x of
       [] \<Rightarrow> []
     | c # cs \<Rightarrow> if p c then [MState (Some c) cs (caps x)] else [])"
| "ms (Seq a b) = (\<lambda>x. concat (map (ms b) (ms a x)))"
| "ms (Alt a b) = (\<lambda>x. ms a x @ ms b x)"
| "ms (Rep mn mx r) = rep_ms (ms r) (groups r) mn mx"
| "ms (Grp n r) = (\<lambda>x.
     map (\<lambda>y. MState (prev y) (rest y)
                  ((caps y)(n := Some (take (length (rest x) - length (rest y)) (rest x)))))
       (ms r x))"
| "ms WordB = (\<lambda>x.
     let a = (case prev x of None \<Rightarrow> False | Some c \<Rightarrow> is_word_char c);
         b = (case rest x of [] \<Rightarrow> False | c # _ \<Rightarrow> is_word_char c)
     in if a \<noteq> b then [x] else [])"

datatype rmatch = RMatch
  (m_pre: string)                    \<comment> \<open>the input before the match\<close>
  (m_groups: "string option list")   \<comment> \<open>the match array: \<^verbatim>\<open>m[0]\<close>, \<^verbatim>\<open>m[1]\<close>, ...;
                                          \<open>None\<close> is \<^verbatim>\<open>undefined\<close>\<close>
  (m_last: "char option")            \<comment> \<open>the character before the end of the match\<close>
  (m_post: string)                   \<comment> \<open>the input after the match\<close>

fun search :: "rx \<Rightarrow> string \<Rightarrow> char option \<Rightarrow> string \<Rightarrow> rmatch option" where
  \<comment> \<open>\<^verbatim>\<open>rx.exec\<close> from a position on: the first start position with a match, and there
      the first match in backtracking order.  \<open>pre\<close> is the input before the position,
      \<open>pv\<close> its last character.\<close>
  "search r pre pv s =
     (case ms r (MState pv s (\<lambda>_. None)) of
        y # _ \<Rightarrow> Some (RMatch pre
                       (Some (take (length s - length (rest y)) s) #
                        map (caps y) [1 ..< Suc (length (groups r))])
                       (prev y) (rest y))
      | [] \<Rightarrow> (case s of
                 [] \<Rightarrow> None
               | c # cs \<Rightarrow> search r (pre @ [c]) (Some c) cs))"

declare search.simps [simp del]

definition exec :: "rx \<Rightarrow> string \<Rightarrow> rmatch option" where
  \<comment> \<open>\<^verbatim>\<open>rx.exec(text)\<close> of a pattern without the \<^verbatim>\<open>g\<close> flag\<close>
  "exec r text = search r [] None text"

definition test :: "rx \<Rightarrow> string \<Rightarrow> bool" where
  "test r text \<longleftrightarrow> exec r text \<noteq> None"

text \<open>Pattern syntax.\<close>

definition Star :: "rx \<Rightarrow> rx" where "Star r = Rep 0 None r"
definition Plus :: "rx \<Rightarrow> rx" where "Plus r = Rep 1 None r"
definition Opt :: "rx \<Rightarrow> rx" where "Opt r = Rep 0 (Some 1) r"
definition Chr :: "char \<Rightarrow> rx" where "Chr c = Cls (\<lambda>x. x = c)"
definition ChrI :: "char \<Rightarrow> rx" where
  \<comment> \<open>a pattern character under the \<^verbatim>\<open>i\<close> flag\<close>
  "ChrI c = Cls (\<lambda>x. upper_char x = upper_char c)"

fun Lit :: "(char \<Rightarrow> rx) \<Rightarrow> string \<Rightarrow> rx" where
  \<comment> \<open>the characters of a literal, one after the other\<close>
  "Lit f [] = Eps"
| "Lit f (c # cs) = Seq (f c) (Lit f cs)"


definition digit_rx :: rx where "digit_rx = Cls is_digit"
definition ws_rx :: rx where "ws_rx = Cls is_space"

definition frac_body :: rx where
  \<comment> \<open>\<^verbatim>\<open>\d{1,4}\s*\/\s*\d{1,4}\<close>\<close>
  "frac_body =
     Seq (Rep 1 (Some 4) digit_rx)
       (Seq (Star ws_rx) (Seq (Chr CHR ''/'') (Seq (Star ws_rx) (Rep 1 (Some 4) digit_rx))))"

definition frac_rx :: rx where
  \<comment> \<open>\<^verbatim>\<open>/(\d{1,4}\s*\/\s*\d{1,4})/\<close>\<close>
  "frac_rx = Grp 1 frac_body"

definition psa_rx :: rx where
  \<comment> \<open>\<^verbatim>\<open>/PSA\s*([0-9]{1,2})\s*([0-9,]+)/gi\<close>\<close>
  "psa_rx =
     Seq (ChrI CHR ''P'') (Seq (Lit ChrI ''SA'')
       (Seq (Star ws_rx) (Seq (Grp 1 (Rep 1 (Some 2) digit_rx))
         (Seq (Star ws_rx) (Grp 2 (Plus (Cls is_num_char)))))))"

definition total_rx :: rx where
  \<comment> \<open>\<^verbatim>\<open>/Total\s*Population\s*([0-9,]+)/i\<close>\<close>
  "total_rx =
     Seq (Lit ChrI ''Total'') (Seq (Star ws_rx)
       (Seq (Lit ChrI ''Population'') (Seq (Star ws_rx) (Grp 1 (Plus (Cls is_num_char))))))"

definition total_opt_rx :: rx where
  \<comment> \<open>\<^verbatim>\<open>/(Total\s*)?Population\s*([0-9,]+)/i\<close>\<close>
  "total_opt_rx =
     Seq (Opt (Grp 1 (Seq (Lit ChrI ''Total'') (Star ws_rx))))
       (Seq (Lit ChrI ''Population'') (Seq (Star ws_rx) (Grp 2 (Plus (Cls is_num_char)))))"

definition marker_rx :: rx where
  \<comment> \<open>\<^verbatim>\<open>/total\s*population/i\<close>\<close>
  "marker_rx = Seq (Lit ChrI ''total'') (Seq (Star ws_rx) (Lit ChrI ''population''))"

definition sweep_rx :: rx where
  \<comment> \<open>\<^verbatim>\<open>/(PSA\s*\d)|(\d{1,4}\s*\/\s*\d{1,4})/i\<close>\<close>
  "sweep_rx =
     Alt (Grp 1 (Seq (Lit ChrI ''PSA'') (Seq (Star ws_rx) digit_rx))) (Grp 2 frac_body)"

definition name_rx :: rx where
  \<comment> \<open>\<^verbatim>\<open>/([A-Za-z0-9'\<dots>\- :]{2,60})\s+\d{1,4}\s*\/\s*\d{1,4}/\<close>\<close>
  "name_rx = Seq (Grp 1 (Rep 2 (Some 60) (Cls is_name_char))) (Seq (Plus ws_rx) frac_body)"

definition label_rx :: rx where
  \<comment> \<open>\<^verbatim>\<open>/\b(Pop(ulation)?\s*Report)\b/i\<close>\<close>
  "label_rx =
     Seq WordB (Seq (Grp 1 (Seq (Lit ChrI ''Pop'') (Seq (Opt (Grp 2 (Lit ChrI ''ulation'')))
       (Seq (Star ws_rx) (Lit ChrI ''Report''))))) WordB)"

definition group_text :: "rmatch \<Rightarrow> nat \<Rightarrow> string" where
  \<comment> \<open>\<^verbatim>\<open>m[n]\<close> where the code reads it as a string; a group that took no part in the match
      is \<^verbatim>\<open>undefined\<close>, which \<^verbatim>\<open>cleanNum\<close> treats as it treats the empty string\<close>
  "group_text m n =
     (if n < length (m_groups m) then (case m_groups m ! n of None \<Rightarrow> [] | Some g \<Rightarrow> g) else [])"

definition replace_first :: "rx \<Rightarrow> string \<Rightarrow> string" where
  \<comment> \<open>\<^verbatim>\<open>s.replace(rx, "")\<close> of a pattern without the \<^verbatim>\<open>g\<close> flag\<close>
  "replace_first r s = (case exec r s of None \<Rightarrow> s | Some m \<Rightarrow> m_pre m @ m_post m)"

section \<open>The matchers never move backwards\<close>

lemma clear_caps_rest [simp]: "rest (clear_caps gs x) = rest x"
  by (simp add: clear_caps_def)

lemma clear_caps_prev [simp]: "prev (clear_caps gs x) = prev x"
  by (simp add: clear_caps_def)

lemma ms_Cls:
  "ms (Cls p) x =
     (if rest x \<noteq> [] \<and> p (hd (rest x))
      then [MState (Some (hd (rest x))) (tl (rest x)) (caps x)] else [])"
  by (cases "rest x") simp_all

lemma ms_Cls_iff:
  "y \<in> set (ms (Cls p) x) \<longleftrightarrow>
     rest x \<noteq> [] \<and> p (hd (rest x)) \<and> y = MState (Some (hd (rest x))) (tl (rest x)) (caps x)"
  by (cases "rest x"; cases "p (hd (rest x))") auto

lemma ms_Seq_iff: "y \<in> set (ms (Seq a b) x) \<longleftrightarrow> (\<exists>z \<in> set (ms a x). y \<in> set (ms b z))"
  by auto

lemma rep_ms_cases:
  assumes "y \<in> set (rep_ms m gs mn mx x)"
  shows "(y = x \<and> (mx = Some 0 \<or> mn = 0)) \<or>
     (mx \<noteq> Some 0 \<and> (\<exists>z \<in> set (m (clear_caps gs x)).
          (mn = 0 \<longrightarrow> length (rest z) < length (rest x)) \<and>
          y \<in> set (rep_ms m gs (mn - 1) (dec_max mx) z)))"
  using assms by (subst (asm) rep_ms.simps) (auto simp: Let_def split: if_splits)

lemma rep_ms_rest_le:
  "(\<And>x y. y \<in> set (m x) \<Longrightarrow> length (rest y) \<le> length (rest x)) \<Longrightarrow>
   y \<in> set (rep_ms m gs mn mx x) \<Longrightarrow> length (rest y) \<le> length (rest x)"
proof (induction m gs mn mx x rule: rep_ms.induct)
  case (1 m gs mn mx x)
  from rep_ms_cases [OF "1.prems"(2)] show ?case
  proof (elim disjE conjE bexE)
    fix z
    assume nz: "mx \<noteq> Some 0" and z: "z \<in> set (m (clear_caps gs x))"
      and g: "mn = 0 \<longrightarrow> length (rest z) < length (rest x)"
      and y: "y \<in> set (rep_ms m gs (mn - 1) (dec_max mx) z)"
    from g have g': "\<not> (mn = 0 \<and> \<not> length (rest z) < length (rest x))" by blast
    have "length (rest y) \<le> length (rest z)"
      using "1.IH" [OF nz z g' "1.prems"(1) y] by simp
    moreover have "length (rest z) \<le> length (rest x)" using "1.prems"(1) [OF z] by simp
    ultimately show ?thesis by simp
  qed simp_all
qed

lemma ms_rest_le: "y \<in> set (ms r x) \<Longrightarrow> length (rest y) \<le> length (rest x)"
proof (induction r arbitrary: x y)
  case (Cls p)
  then show ?case unfolding ms_Cls_iff by (cases "rest x") auto
next
  case (Seq a b)
  from Seq.prems obtain z where "z \<in> set (ms a x)" "y \<in> set (ms b z)" by auto
  then show ?case using Seq.IH(1) [of z x] Seq.IH(2) [of y z] by simp
next
  case (Rep mn mx r)
  then show ?case using rep_ms_rest_le [of "ms r"] by auto
qed (auto split: if_splits simp: Let_def)

lemma ms_Cls_Seq_rest_less:
  assumes "y \<in> set (ms (Seq (Cls p) r) x)"
  shows "length (rest y) < length (rest x)"
proof -
  from assms obtain z where z: "z \<in> set (ms (Cls p) x)" and y: "y \<in> set (ms r z)"
    unfolding ms_Seq_iff by blast
  from z have "length (rest z) < length (rest x)" unfolding ms_Cls_iff by (cases "rest x") auto
  with ms_rest_le [OF y] show ?thesis by simp
qed

lemma search_cases:
  assumes "search r pre pv s = Some m"
  shows "(\<exists>y ys. ms r (MState pv s (\<lambda>_. None)) = y # ys \<and>
            m = RMatch pre (Some (take (length s - length (rest y)) s) #
                  map (caps y) [1 ..< Suc (length (groups r))]) (prev y) (rest y)) \<or>
         (ms r (MState pv s (\<lambda>_. None)) = [] \<and>
            (\<exists>c cs. s = c # cs \<and> search r (pre @ [c]) (Some c) cs = Some m))"
  using assms by (subst (asm) search.simps) (auto split: list.splits)

lemma search_post_le:
  "search r pre pv s = Some m \<Longrightarrow> length (m_post m) \<le> length s"
proof (induction s arbitrary: pre pv)
  case Nil
  from search_cases [OF Nil] obtain y ys where
    "ms r (MState pv [] (\<lambda>_. None)) = y # ys" "m_post m = rest y" by auto
  then show ?case using ms_rest_le [of y r "MState pv [] (\<lambda>_. None)"] by simp
next
  case (Cons c cs)
  from search_cases [OF Cons.prems] show ?case
  proof (elim disjE exE conjE)
    fix y ys
    assume "ms r (MState pv (c # cs) (\<lambda>_. None)) = y # ys"
      and "m = RMatch pre (Some (take (length (c # cs) - length (rest y)) (c # cs)) #
                  map (caps y) [1 ..< Suc (length (groups r))]) (prev y) (rest y)"
    then show ?thesis using ms_rest_le [of y r "MState pv (c # cs) (\<lambda>_. None)"] by simp
  next
    fix c' cs'
    assume "c # cs = c' # cs'" and "search r (pre @ [c']) (Some c') cs' = Some m"
    then show ?thesis using Cons.IH [of "pre @ [c]" "Some c"] by simp
  qed
qed

lemma search_Cls_Seq_post_less:
  "search (Seq (Cls p) r) pre pv s = Some m \<Longrightarrow> length (m_post m) < length s"
proof (induction s arbitrary: pre pv)
  case Nil
  from search_cases [OF Nil] obtain y ys where
    "ms (Seq (Cls p) r) (MState pv [] (\<lambda>_. None)) = y # ys" by auto
  then have "y \<in> set (ms (Seq (Cls p) r) (MState pv [] (\<lambda>_. None)))" by simp
  from ms_Cls_Seq_rest_less [OF this] show ?case by simp
next
  case (Cons c cs)
  from search_cases [OF Cons.prems] show ?case
  proof (elim disjE exE conjE)
    fix y ys
    assume a: "ms (Seq (Cls p) r) (MState pv (c # cs) (\<lambda>_. None)) = y # ys"
      and m: "m = RMatch pre (Some (take (length (c # cs) - length (rest y)) (c # cs)) #
                  map (caps y) [1 ..< Suc (length (groups (Seq (Cls p) r)))]) (prev y) (rest y)"
    from a have "y \<in> set (ms (Seq (Cls p) r) (MState pv (c # cs) (\<lambda>_. None)))" by simp
    from ms_Cls_Seq_rest_less [OF this] m show ?thesis by simp
  next
    fix c' cs'
    assume "c # cs = c' # cs'" and "search (Seq (Cls p) r) (pre @ [c']) (Some c') cs' = Some m"
    then show ?thesis using Cons.IH [of "pre @ [c]" "Some c"] by simp
  qed
qed


section \<open>The field extractors\<close>

function psa_matches :: "string \<Rightarrow> char option \<Rightarrow> string \<Rightarrow> rmatch list" where
  \<comment> \<open>the matches \<^verbatim>\<open>while ((m = rx.exec(text)))\<close> sees, one after the other: each search
      starts where the match before ended (\<^verbatim>\<open>lastIndex\<close>)\<close>
  "psa_matches pre pv s =
     (case search psa_rx pre pv s of
        None \<Rightarrow> []
      | Some m \<Rightarrow> m # psa_matches (m_pre m @ group_text m 0) (m_last m) (m_post m))"
  by pat_completeness auto
termination
proof (relation "measure (\<lambda>(pre, pv, s). length s)")
  show "wf (measure (\<lambda>(pre, pv, s). length s))" by simp
next
  fix pre pv s m
  assume "search psa_rx pre pv s = Some m"
  then have "length (m_post m) < length s"
    unfolding psa_rx_def ChrI_def by (rule search_Cls_Seq_post_less)
  then show "((m_pre m @ group_text m 0, m_last m, m_post m), pre, pv, s)
      \<in> measure (\<lambda>(pre, pv, s). length s)" by simp
qed

declare psa_matches.simps [simp del]

record grade_entry =
  grade :: string
  gvalue :: "number option"

definition findGrades :: "string \<Rightarrow> grade_entry list" where
  \<comment> \<open>\<^verbatim>\<open>while ((m = rx.exec(text))) out.push({ grade: m[1], value: cleanNum(m[2]) });\<close>\<close>
  "findGrades text =
     map (\<lambda>m. \<lparr>grade = group_text m 1, gvalue = cleanNum (group_text m 2)\<rparr>)
       (psa_matches [] None text)"

definition set_grade :: "string \<Rightarrow> number \<Rightarrow> (string \<times> number) list \<Rightarrow> (string \<times> number) list" where
  \<comment> \<open>\<^verbatim>\<open>grades[`PSA ${grade}`] = val\<close>: a new key goes to the end, a key already there keeps
      its place and takes the new value\<close>
  "set_grade g v gs = AList.update (''PSA '' @ g) v gs"

definition extractGradesMap :: "string \<Rightarrow> (string \<times> number) list" where
  \<comment> \<open>\<^verbatim>\<open>for (const g of findGrades(text)) if (g.value != null) grades[`PSA ${g.grade}`] = g.value;\<close>\<close>
  "extractGradesMap text =
     foldl (\<lambda>gs g. case gvalue g of None \<Rightarrow> gs | Some v \<Rightarrow> set_grade (grade g) v gs) []
       (findGrades text)"

definition extractGrades :: "string \<Rightarrow> (string \<times> number) list" where
  \<comment> \<open>\<^verbatim>\<open>while ((m = rx.exec(text))) { const grade = m[1]; const val = cleanNum(m[2]);
      if (val != null) grades[`PSA ${grade}`] = val; }\<close>\<close>
  "extractGrades text =
     foldl (\<lambda>gs m. case cleanNum (group_text m 2) of
                      None \<Rightarrow> gs
                    | Some v \<Rightarrow> set_grade (group_text m 1) v gs) []
       (psa_matches [] None text)"

definition extractTotal :: "string \<Rightarrow> number option" where
  \<comment> \<open>\<^verbatim>\<open>api/scrapeSet.js\<close> and the other variants that pick blocks by selector:
      \<^verbatim>\<open>const m = /Total\s*Population\s*([0-9,]+)/i.exec(text); return m ? cleanNum(m[1]) : null;\<close>\<close>
  "extractTotal text =
     (case exec total_rx text of None \<Rightarrow> None | Some m \<Rightarrow> cleanNum (group_text m 1))"

definition extractTotal_sweep :: "string \<Rightarrow> number option" where
  \<comment> \<open>the two variants that sweep all containers:
      \<^verbatim>\<open>const m = /(Total\s*)?Population\s*([0-9,]+)/i.exec(text); return m ? cleanNum(m[2]) : null;\<close>\<close>
  "extractTotal_sweep text =
     (case exec total_opt_rx text of None \<Rightarrow> None | Some m \<Rightarrow> cleanNum (group_text m 2))"

definition extractCardNumberChunk :: "string \<Rightarrow> string option" where
  \<comment> \<open>\<^verbatim>\<open>const m = /(\d{1,4}\s*\/\s*\d{1,4})/.exec(text);
      return m ? m[1].replace(/\s+/g, "") : null;\<close> (\<^verbatim>\<open>extractCardNumber\<close> in one variant)\<close>
  "extractCardNumberChunk text =
     (case exec frac_rx text of None \<Rightarrow> None | Some m \<Rightarrow> Some (strip_ws (group_text m 1)))"

definition fallbackNameFromText :: "string \<Rightarrow> string" where
  \<comment> \<open>\<^verbatim>\<open>if (!m) return ""; return m[1].replace(/\b(Pop(ulation)?\s*Report)\b/i, "").trim();\<close>\<close>
  "fallbackNameFromText text =
     (case exec name_rx text of
        None \<Rightarrow> []
      | Some m \<Rightarrow> trim (replace_first label_rx (group_text m 1)))"

section \<open>Records, filters and the limit\<close>

record card_record =
  name :: string
  details :: string
  cardNumber :: "string option"
  totalPop :: "number option"
  grades :: "(string \<times> number) list"

record block = card_record +
  len :: nat    \<comment> \<open>\<^verbatim>\<open>_len\<close>, the length of the block's text\<close>

definition strip_len :: "block \<Rightarrow> card_record" where
  \<comment> \<open>\<^verbatim>\<open>({ _len, ...rest }) => rest\<close>\<close>
  "strip_len b =
     \<lparr>name = name b, details = details b, cardNumber = cardNumber b,
      totalPop = totalPop b, grades = grades b\<rparr>"

record element =
  el_text :: string       \<comment> \<open>\<^verbatim>\<open>$el.text()\<close>\<close>
  el_name :: string       \<comment> \<open>the name that \<^verbatim>\<open>extractNameAndDetails($el)\<close> finds, or the empty string\<close>
  el_details :: string    \<comment> \<open>the details it finds, or the empty string\<close>

definition js_or :: "string option \<Rightarrow> string option \<Rightarrow> string option" where
  \<comment> \<open>\<^verbatim>\<open>a || b\<close> on values that are a string or \<^verbatim>\<open>null\<close>: \<^verbatim>\<open>null\<close> and the empty string are
      falsy\<close>
  "js_or a b = (case a of None \<Rightarrow> b | Some s \<Rightarrow> if s = [] then b else Some s)"

definition name_filter :: "string \<Rightarrow> ('a card_record_scheme) list \<Rightarrow> ('a card_record_scheme) list" where
  \<comment> \<open>\<^verbatim>\<open>filtered.filter((r) => (r.name && r.name.toLowerCase().includes(q)) ||
      (r.details && r.details.toLowerCase().includes(q)))\<close>\<close>
  "name_filter q rows =
     filter (\<lambda>r. (name r \<noteq> [] \<and> includes_str (toLowerCase (name r)) q) \<or>
                 (details r \<noteq> [] \<and> includes_str (toLowerCase (details r)) q)) rows"

definition number_filter :: "string \<Rightarrow> ('a card_record_scheme) list \<Rightarrow> ('a card_record_scheme) list" where
  \<comment> \<open>\<^verbatim>\<open>filtered.filter((r) => r.cardNumber && r.cardNumber.replace(/\s+/g, "") === want)\<close>\<close>
  "number_filter want rows =
     filter (\<lambda>r. case cardNumber r of
                   None \<Rightarrow> False
                 | Some n \<Rightarrow> n \<noteq> [] \<and> strip_ws n = want) rows"

definition number_filter_strict :: "string \<Rightarrow> ('a card_record_scheme) list \<Rightarrow> ('a card_record_scheme) list" where
  \<comment> \<open>\<^verbatim>\<open>filtered.filter((r) => r.cardNumber === want)\<close>\<close>
  "number_filter_strict want rows = filter (\<lambda>r. cardNumber r = Some want) rows"

definition apply_name :: "string option \<Rightarrow> ('a card_record_scheme) list \<Rightarrow> ('a card_record_scheme) list" where
  \<comment> \<open>\<^verbatim>\<open>if (pokemonName) { const q = String(pokemonName).toLowerCase(); ... }\<close>; a parameter
      that is absent or empty is falsy\<close>
  "apply_name pokemonName rows =
     (case pokemonName of
        None \<Rightarrow> rows
      | Some p \<Rightarrow> if p = [] then rows else name_filter (toLowerCase p) rows)"

definition apply_number :: "string option \<Rightarrow> ('a card_record_scheme) list \<Rightarrow> ('a card_record_scheme) list" where
  \<comment> \<open>\<^verbatim>\<open>if (cardNumber) { const want = String(cardNumber).replace(/\s+/g, ""); ... }\<close>\<close>
  "apply_number cardNumberQ rows =
     (case cardNumberQ of
        None \<Rightarrow> rows
      | Some c \<Rightarrow> if c = [] then rows else number_filter (strip_ws c) rows)"

definition apply_number_strict :: "string option \<Rightarrow> ('a card_record_scheme) list \<Rightarrow> ('a card_record_scheme) list" where
  "apply_number_strict cardNumberQ rows =
     (case cardNumberQ of
        None \<Rightarrow> rows
      | Some c \<Rightarrow> if c = [] then rows else number_filter_strict (strip_ws c) rows)"

definition num_le :: "number \<Rightarrow> number \<Rightarrow> bool" where
  \<comment> \<open>the order of the numbers that are not NaN\<close>
  "num_le a b =
     (case (a, b) of
        (NegInfinity, _) \<Rightarrow> True
      | (_, Infinity) \<Rightarrow> True
      | (Finite x, Finite y) \<Rightarrow> x \<le> y
      | _ \<Rightarrow> False)"

definition Math_min :: "number \<Rightarrow> number \<Rightarrow> number" where
  "Math_min a b = (if a = NaN \<or> b = NaN then NaN else if num_le a b then a else b)"

definition Math_max :: "number \<Rightarrow> number \<Rightarrow> number" where
  "Math_max a b = (if a = NaN \<or> b = NaN then NaN else if num_le a b then b else a)"

definition truthy_num :: "number \<Rightarrow> bool" where
  \<comment> \<open>a number is falsy when it is NaN or zero\<close>
  "truthy_num n \<longleftrightarrow> n \<noteq> NaN \<and> n \<noteq> Finite 0"

definition slice_end :: "number \<Rightarrow> nat \<Rightarrow> nat" where
  \<comment> \<open>the end index \<^verbatim>\<open>slice(0, end)\<close> uses on an array of length \<open>n\<close>: \<open>end\<close> truncated to
      an integer (NaN counts as 0), counted from the back when negative, and clamped\<close>
  "slice_end e n =
     (case e of
        NaN \<Rightarrow> 0
      | NegInfinity \<Rightarrow> 0
      | Infinity \<Rightarrow> n
      | Finite q \<Rightarrow>
          (let k = (if 0 \<le> q then \<lfloor>q\<rfloor> else \<lceil>q\<rceil>)
           in if k < 0 then nat (int n + k) else min (nat k) n))"

definition slice0 :: "'a list \<Rightarrow> number \<Rightarrow> 'a list" where
  "slice0 xs e = take (slice_end e (length xs)) xs"

definition limit_value :: "number option \<Rightarrow> number option" where
  \<comment> \<open>\<^verbatim>\<open>const lim = limit ? Math.max(1, Math.min(200, Number(limit))) : null;\<close>
      The parameter is \<open>None\<close> when the query has no \<^verbatim>\<open>limit\<close> or an empty one (falsy), and
      \<open>Some n\<close> with \<open>n\<close> the value \<^verbatim>\<open>Number(limit)\<close> of the text given otherwise.\<close>
  "limit_value limit =
     (case limit of
        None \<Rightarrow> None
      | Some n \<Rightarrow> Some (Math_max (Finite 1) (Math_min (Finite 200) n)))"

definition apply_limit :: "number option \<Rightarrow> 'a list \<Rightarrow> 'a list" where
  \<comment> \<open>\<^verbatim>\<open>const out = lim ? filtered.slice(0, lim) : filtered;\<close>\<close>
  "apply_limit limit filtered =
     (case limit_value limit of
        None \<Rightarrow> filtered
      | Some l \<Rightarrow> if truthy_num l then slice0 filtered l else filtered)"


section \<open>The variant that picks blocks by selector (\<^verbatim>\<open>api/scrapeSet.js\<close>)\<close>

text \<open>
  The parsed page is what Cheerio answers: \<open>doc sel\<close> is \<^verbatim>\<open>$(sel).toArray()\<close>, the elements
  matching a selector in document order.  An element carries its text and the name and
  details that \<^verbatim>\<open>extractNameAndDetails\<close> reads from its children.
\<close>

definition CANDIDATE_CARD_SELECTORS :: "string list" where
  "CANDIDATE_CARD_SELECTORS =
     [''.card'', ''.card-box'', ''.card-item'', ''article'', ''li.card'',
      [CHR ''d'', CHR ''i'', CHR ''v'', CHR ''['', CHR ''c'', CHR ''l'', CHR ''a'', CHR ''s'',
       CHR ''s'', CHR ''*'', CHR ''='', CHR 0x27, CHR ''c'', CHR ''a'', CHR ''r'', CHR ''d'',
       CHR 0x27, CHR '']'']]"

fun best_loop ::
  "(string \<Rightarrow> 'n list) \<Rightarrow> string list \<Rightarrow> 'n list \<times> string option \<Rightarrow> 'n list \<times> string option" where
  \<comment> \<open>\<^verbatim>\<open>for (const sel of CANDIDATE_CARD_SELECTORS) { const found = $(sel).toArray();
      if (found.length > best.length) { best = found; bestSelector = sel; } }\<close>\<close>
  "best_loop doc [] acc = acc"
| "best_loop doc (sel # sels) (best, bestSelector) =
     (let found = doc sel
      in if length found > length best then best_loop doc sels (found, Some sel)
         else best_loop doc sels (best, bestSelector))"

definition heuristic_label :: string where
  "heuristic_label =
     ''(heuristic div contains '' @ [CHR 0x27] @ ''Total Population'' @ [CHR 0x27] @ '')''"

definition select_blocks ::
  "(string \<Rightarrow> 'n list) \<Rightarrow> ('n \<Rightarrow> string) \<Rightarrow> 'n list \<times> string option" where
  \<comment> \<open>the loop over the selectors, then
      \<^verbatim>\<open>if (best.length === 0) { best = $("div").toArray().filter((el) =>
      $(el).text().toLowerCase().includes("total population")); ... }\<close>\<close>
  "select_blocks doc text_of =
     (case best_loop doc CANDIDATE_CARD_SELECTORS ([], None) of
        (best, bestSelector) \<Rightarrow>
          if length best = 0
          then (filter (\<lambda>el. includes_str (toLowerCase (text_of el)) ''total population'')
                  (doc ''div''), Some heuristic_label)
          else (best, bestSelector))"

definition row_of :: "element \<Rightarrow> card_record option" where
  \<comment> \<open>the body of \<^verbatim>\<open>for (const el of best)\<close>: \<open>None\<close> is \<^verbatim>\<open>continue\<close>, \<open>Some\<close> is
      \<^verbatim>\<open>rows.push\<close>\<close>
  "row_of el =
     (let text = normalize_text (el_text el)
      in if \<not> test marker_rx text then None
         else
           let totalPop' = extractTotal text;
               grades' = extractGrades text;
               numberChunk = js_or (extractCardNumberChunk text) (extractCardNumberChunk (el_details el))
           in if el_name el = [] \<and> el_details el = [] then None
              else Some \<lparr>name = el_name el, details = el_details el,
                          cardNumber = js_or numberChunk None,
                          totalPop = totalPop', grades = grades'\<rparr>)"

record response =
  totalFound :: nat
  returned :: nat
  cards :: "card_record list"

record selector_response = response +
  selectorUsed :: "string option"

definition handler_structural ::
  "(string \<Rightarrow> element list) \<Rightarrow> string option \<Rightarrow> string option \<Rightarrow> number option
     \<Rightarrow> selector_response" where
  \<comment> \<open>the handler of \<^verbatim>\<open>api/scrapeSet.js\<close> from the loaded page on\<close>
  "handler_structural doc pokemonName cardNumberQ limit =
     (case select_blocks doc el_text of
        (best, bestSelector) \<Rightarrow>
          let rows = List.map_filter row_of best;
              filtered = apply_number cardNumberQ (apply_name pokemonName rows);
              out = apply_limit limit filtered
          in \<lparr>totalFound = length rows, returned = length out, cards = out,
               selectorUsed = bestSelector\<rparr>)"

section \<open>The two variants that sweep every container\<close>

definition block_of_sweep :: "element \<Rightarrow> block option" where
  \<comment> \<open>the loop body of the first sweeping variant (text heuristics)\<close>
  "block_of_sweep el =
     (let text = normalize_text (el_text el)
      in if \<not> test sweep_rx text then None
         else
           let grades' = extractGrades text;
               totalPop' = extractTotal_sweep text;
               numChunk = extractCardNumberChunk text
           in if length grades' = 0 \<and> js_or numChunk None = None then None
              else Some \<lparr>name = el_name el, details = el_details el,
                          cardNumber = js_or numChunk None,
                          totalPop = totalPop', grades = grades', len = length text\<rparr>)"

definition key_sweep :: "block \<Rightarrow> string" where
  \<comment> \<open>\<^verbatim>\<open>`${(b.name || "").toLowerCase()}|${b.cardNumber || ""}`\<close>\<close>
  "key_sweep b =
     toLowerCase (name b) @ ''|'' @ (case cardNumber b of None \<Rightarrow> [] | Some n \<Rightarrow> n)"

fun dedup_sweep :: "string list \<Rightarrow> block list \<Rightarrow> block list" where
  \<comment> \<open>\<^verbatim>\<open>for (const b of blocks) { if (seen.has(key) && key !== "|") continue;
      seen.add(key); rows.push(b); }\<close>\<close>
  "dedup_sweep seen [] = []"
| "dedup_sweep seen (b # bs) =
     (let key = key_sweep b
      in if key \<in> set seen \<and> key \<noteq> ''|'' then dedup_sweep seen bs
         else b # dedup_sweep (key # seen) bs)"

definition sort_by_len :: "block list \<Rightarrow> block list" where
  \<comment> \<open>\<^verbatim>\<open>filtered.sort((a, b) => (b._len || 0) - (a._len || 0))\<close>: longest first, and stable\<close>
  "sort_by_len bs = sort_key (\<lambda>b. - int (len b)) bs"

definition handler_sweep ::
  "element list \<Rightarrow> string option \<Rightarrow> string option \<Rightarrow> number option \<Rightarrow> response" where
  \<comment> \<open>\<open>candidates\<close> is \<^verbatim>\<open>$("section, article, div").toArray()\<close>\<close>
  "handler_sweep candidates pokemonName cardNumberQ limit =
     (let blocks = List.map_filter block_of_sweep candidates;
          rows = dedup_sweep [] blocks;
          filtered = sort_by_len (apply_number cardNumberQ (apply_name pokemonName rows));
          out = apply_limit limit filtered
      in \<lparr>totalFound = length rows, returned = length out, cards = map strip_len out\<rparr>)"

definition distinct_grades :: "grade_entry list \<Rightarrow> nat" where
  \<comment> \<open>\<^verbatim>\<open>new Set(gradeList.map(g => g.grade)).size\<close>\<close>
  "distinct_grades gradeList = card (set (map grade gradeList))"

definition block_of_strict :: "element \<Rightarrow> block option" where
  \<comment> \<open>the loop body of the second sweeping variant (tight heuristics)\<close>
  "block_of_strict el =
     (let raw = normalize_text (el_text el)
      in if raw = [] then None
         else case js_or (extractCardNumberChunk raw) None of
           None \<Rightarrow> None
         | Some num \<Rightarrow>
             if distinct_grades (findGrades raw) < 3 then None
             else
               let name' = (if el_name el = []
                            then (let guess = fallbackNameFromText raw
                                  in if guess \<noteq> [] then guess else el_name el)
                            else el_name el);
                   grades' = extractGradesMap raw;
                   totalPop' = extractTotal_sweep raw
               in if length grades' = 0 then None
                  else Some \<lparr>name = name', details = el_details el, cardNumber = Some num,
                              totalPop = totalPop', grades = grades', len = length raw\<rparr>)"

definition key_strict :: "block \<Rightarrow> string" where
  \<comment> \<open>\<^verbatim>\<open>`${(b.name || "").toLowerCase()}|${b.cardNumber}`\<close>\<close>
  "key_strict b =
     toLowerCase (name b) @ ''|'' @ (case cardNumber b of None \<Rightarrow> ''null'' | Some n \<Rightarrow> n)"

fun dedup_strict :: "string list \<Rightarrow> block list \<Rightarrow> block list" where
  \<comment> \<open>\<^verbatim>\<open>for (const b of kept) { if (seen.has(key)) continue; seen.add(key); rows.push(b); }\<close>\<close>
  "dedup_strict seen [] = []"
| "dedup_strict seen (b # bs) =
     (let key = key_strict b
      in if key \<in> set seen then dedup_strict seen bs
         else b # dedup_strict (key # seen) bs)"

definition handler_strict ::
  "element list \<Rightarrow> string option \<Rightarrow> string option \<Rightarrow> number option \<Rightarrow> response" where
  \<comment> \<open>\<open>candidates\<close> is \<^verbatim>\<open>$("article, section, li, div").toArray()\<close>\<close>
  "handler_strict candidates pokemonName cardNumberQ limit =
     (let kept = List.map_filter block_of_strict candidates;
          rows = dedup_strict [] kept;
          filtered = sort_by_len (apply_number_strict cardNumberQ (apply_name pokemonName rows));
          out = apply_limit limit filtered
      in \<lparr>totalFound = length rows, returned = length out, cards = map strip_len out\<rparr>)"

section \<open>The numeric normalizer\<close>

lemma exponent_of_small: "n < 2 ^ 53 \<Longrightarrow> exponent_of n = 0"
  by (subst exponent_of.simps) simp

lemma Number_of_int_2_53: "Number_of_int (2 ^ 53) = Finite (of_int (2 ^ 53))"
  by code_simp

lemma Number_of_int_exact: "n \<le> 2 ^ 53 \<Longrightarrow> Number_of_int n = Finite (of_int n)"
proof (cases "n < 2 ^ 53")
  case True
  then have "\<not> (2 ^ 1024 \<le> n)" by simp
  with True show ?thesis by (simp add: Number_of_int_def exponent_of_small)
next
  case False
  assume "n \<le> 2 ^ 53"
  with False have n: "n = 2 ^ 53" by simp
  show ?thesis unfolding n by (rule Number_of_int_2_53)
qed

text \<open>
  C6 (as amended).  For every input string, \<^verbatim>\<open>cleanNum\<close> deletes every character that is
  not a digit and reads what is left as a decimal numeral; it gives \<^verbatim>\<open>null\<close> when nothing
  is left (so also for the empty input), and it is total.  The number it gives is the
  integer itself as long as that is at most \<open>2 ^ 53\<close>; beyond, it is the nearest double.
\<close>

theorem cleanNum_spec:
  "cleanNum s =
     (if filter is_digit s = [] then None
      else Some (Number_of_int (decimal (filter is_digit s)))) \<and>
   (decimal (filter is_digit s) \<le> 2 ^ 53 \<longrightarrow>
      Number_of_int (decimal (filter is_digit s)) = Finite (of_int (decimal (filter is_digit s))))"
  by (auto simp: cleanNum_def Number_of_int_exact)

theorem cleanNum_spec_witness:
  "cleanNum ''13,782'' = Some (Finite 13782) \<and> cleanNum [] = None \<and> cleanNum ''n/a'' = None"
proof -
  have a: "filter is_digit ''13,782'' = ''13782''" by code_simp
  have b: "decimal ''13782'' = 13782" by code_simp
  have c: "filter is_digit ''n/a'' = []" by code_simp
  have d: "(13782 :: int) \<le> 2 ^ 53" by simp
  from cleanNum_spec [of "''13,782''"] have "cleanNum ''13,782'' = Some (Finite 13782)"
    unfolding a b using d by simp
  moreover from cleanNum_spec [of "[]"] have "cleanNum [] = None" by simp
  moreover from cleanNum_spec [of "''n/a''"] have "cleanNum ''n/a'' = None"
    unfolding c by simp
  ultimately show ?thesis by simp
qed

text \<open>
  The claim as stated promises the integer for every input.  The sixteen digits of
  \<open>2 ^ 53 + 1\<close> come back as \<open>2 ^ 53\<close>.
\<close>

theorem cleanNum_large_counterexample:
  "cleanNum ''9007199254740993'' = Some (Finite 9007199254740992) \<and>
   cleanNum ''9007199254740993'' \<noteq> Some (Finite 9007199254740993)"
proof -
  have "cleanNum ''9007199254740993'' = Some (Finite 9007199254740992)" by code_simp
  then show ?thesis by simp
qed

section \<open>The filters\<close>

text \<open>What the two filters are to keep, in the words of the specification.\<close>

definition name_matches :: "string option \<Rightarrow> 'a card_record_scheme \<Rightarrow> bool" where
  "name_matches pokemonName r \<longleftrightarrow>
     (case pokemonName of
        None \<Rightarrow> True
      | Some p \<Rightarrow> p = [] \<or> includes_str (toLowerCase (name r)) (toLowerCase p)
                        \<or> includes_str (toLowerCase (details r)) (toLowerCase p))"

definition number_matches :: "string option \<Rightarrow> 'a card_record_scheme \<Rightarrow> bool" where
  "number_matches cardNumberQ r \<longleftrightarrow>
     (case cardNumberQ of
        None \<Rightarrow> True
      | Some c \<Rightarrow> c = [] \<or> (case cardNumber r of
                                 None \<Rightarrow> False
                               | Some n \<Rightarrow> strip_ws n = strip_ws c))"

definition pikachu :: card_record where
  "pikachu = \<lparr>name = ''Pikachu'', details = [], cardNumber = Some ''4/102'', totalPop = None, grades = []\<rparr>"

definition raichu :: card_record where
  "raichu = \<lparr>name = ''Raichu'', details = [], cardNumber = Some ''5/102'', totalPop = None, grades = []\<rparr>"

lemma includes_str_Nil: "includes_str [] q \<longleftrightarrow> q = []"
  by (simp add: includes_str_def)

lemma toLowerCase_Nil_iff [simp]: "toLowerCase s = [] \<longleftrightarrow> s = []"
  by (simp add: toLowerCase_def)

lemma name_filter_eq:
  "q \<noteq> [] \<Longrightarrow>
   name_filter q rows =
     filter (\<lambda>r. includes_str (toLowerCase (name r)) q \<or> includes_str (toLowerCase (details r)) q) rows"
  unfolding name_filter_def
  by (rule filter_cong) (auto simp: includes_str_Nil toLowerCase_def)

lemma number_filter_eq:
  "\<forall>r \<in> set rows. cardNumber r \<noteq> Some [] \<Longrightarrow>
   number_filter want rows =
     filter (\<lambda>r. case cardNumber r of None \<Rightarrow> False | Some n \<Rightarrow> strip_ws n = want) rows"
  unfolding number_filter_def
  by (rule filter_cong) (auto split: option.splits)



section \<open>The limit\<close>

lemma limit_value_Finite:
  "limit_value (Some (Finite q)) = Some (Finite (max 1 (min 200 q)))"
  by (auto simp: limit_value_def Math_max_def Math_min_def num_le_def max_def min_def)

lemma slice0_Finite: "1 \<le> q \<Longrightarrow> slice0 xs (Finite q) = take (nat \<lfloor>q\<rfloor>) xs"
proof -
  assume q: "1 \<le> q"
  then have "0 \<le> \<lfloor>q\<rfloor>" by simp
  with q show ?thesis by (simp add: slice0_def slice_end_def Let_def min_def)
qed

text \<open>
  C8.  Without a limit the filtered list is returned whole.  A limit whose text is a number
  is clamped to the range from 1 to 200 and the list is cut to that many records, in
  their order: 0 gives one record and 500 gives two hundred.  A limit whose text is not a
  number (\<^verbatim>\<open>Number(limit)\<close> is NaN, as for \<^verbatim>\<open>limit=abc\<close>) is not clamped: NaN passes through
  \<^verbatim>\<open>Math.min\<close> and \<^verbatim>\<open>Math.max\<close>, is falsy, and the whole list is returned.
\<close>

theorem apply_limit_cases:
  "apply_limit None rows = rows \<and>
   apply_limit (Some (Finite q)) rows = take (nat \<lfloor>max 1 (min 200 q)\<rfloor>) rows \<and>
   apply_limit (Some Infinity) rows = take 200 rows \<and>
   apply_limit (Some NegInfinity) rows = take 1 rows \<and>
   apply_limit (Some NaN) rows = rows"
proof -
  have a: "apply_limit None rows = rows" by (simp add: apply_limit_def limit_value_def)
  have "1 \<le> max 1 (min 200 q)" by simp
  then have "max 1 (min 200 q) \<noteq> 0" by linarith
  then have "truthy_num (Finite (max 1 (min 200 q)))" by (simp add: truthy_num_def)
  then have b: "apply_limit (Some (Finite q)) rows = take (nat \<lfloor>max 1 (min 200 q)\<rfloor>) rows"
    by (simp add: apply_limit_def limit_value_Finite slice0_Finite)
  have c: "apply_limit (Some Infinity) rows = take 200 rows"
    by (simp add: apply_limit_def limit_value_def Math_max_def Math_min_def num_le_def
        truthy_num_def slice0_Finite)
  have d: "apply_limit (Some NegInfinity) rows = take 1 rows"
    by (simp add: apply_limit_def limit_value_def Math_max_def Math_min_def num_le_def
        truthy_num_def slice0_Finite)
  have e: "apply_limit (Some NaN) rows = rows"
    by (simp add: apply_limit_def limit_value_def Math_max_def Math_min_def truthy_num_def)
  from a b c d e show ?thesis by simp
qed

theorem apply_limit_cases_witness:
  "apply_limit (Some (Finite 0)) [1, 2, 3 :: nat] = [1] \<and>
   apply_limit (Some (Finite 500)) (replicate 300 (0 :: nat)) = replicate 200 0 \<and>
   apply_limit (Some NaN) [1, 2, 3 :: nat] = [1, 2, 3]"
  using apply_limit_cases [of "[1, 2, 3 :: nat]" 0]
    apply_limit_cases [of "replicate 300 (0 :: nat)" 500]
  by simp

section \<open>The block selector\<close>

lemma best_loop_spec:
  "best_loop doc sels (best, bs) = (b', s') \<Longrightarrow>
     length best \<le> length b' \<and>
     (\<forall>sel \<in> set sels. length (doc sel) \<le> length b') \<and>
     ((b' = best \<and> s' = bs) \<or>
      (\<exists>sel \<in> set sels. b' = doc sel \<and> s' = Some sel \<and> length best < length b'))"
proof (induction sels arbitrary: best bs)
  case Nil
  then show ?case by simp
next
  case (Cons sel sels)
  show ?case
  proof (cases "length best < length (doc sel)")
    case True
    with Cons.prems have "best_loop doc sels (doc sel, Some sel) = (b', s')" by simp
    from Cons.IH [OF this] True show ?thesis by auto
  next
    case False
    with Cons.prems have "best_loop doc sels (best, bs) = (b', s')" by simp
    from Cons.IH [OF this] False show ?thesis by auto
  qed
qed

text \<open>
  C5.  The selector runs every query of the list and keeps a result of the greatest
  length, whichever query gave it.  Only when every query finds nothing does it take the
  \<^verbatim>\<open>div\<close> elements whose lower-cased text contains \<^verbatim>\<open>total population\<close>.
\<close>

theorem select_blocks_spec:
  "((\<forall>sel \<in> set CANDIDATE_CARD_SELECTORS. doc sel = []) \<longrightarrow>
      fst (select_blocks doc text_of) =
        filter (\<lambda>el. includes_str (toLowerCase (text_of el)) ''total population'') (doc ''div'')) \<and>
   (\<not> (\<forall>sel \<in> set CANDIDATE_CARD_SELECTORS. doc sel = []) \<longrightarrow>
      (\<exists>sel \<in> set CANDIDATE_CARD_SELECTORS.
         select_blocks doc text_of = (doc sel, Some sel) \<and>
         (\<forall>sel' \<in> set CANDIDATE_CARD_SELECTORS. length (doc sel') \<le> length (doc sel))))"
proof -
  obtain b' s' where r: "best_loop doc CANDIDATE_CARD_SELECTORS ([], None) = (b', s')"
    by (cases "best_loop doc CANDIDATE_CARD_SELECTORS ([], None)") simp
  note spec = best_loop_spec [OF r]
  show ?thesis
  proof (cases "\<forall>sel \<in> set CANDIDATE_CARD_SELECTORS. doc sel = []")
    case True
    with spec have "b' = []" by auto
    with r True show ?thesis by (simp add: select_blocks_def)
  next
    case False
    then obtain sel0 where "sel0 \<in> set CANDIDATE_CARD_SELECTORS" "doc sel0 \<noteq> []" by blast
    with spec have ne: "b' \<noteq> []" by fastforce
    with spec obtain sel where sel: "sel \<in> set CANDIDATE_CARD_SELECTORS" "b' = doc sel" "s' = Some sel"
      by auto
    from r ne have "select_blocks doc text_of = (b', s')" by (simp add: select_blocks_def)
    with sel spec False show ?thesis by auto
  qed
qed

definition example_doc :: "string \<Rightarrow> nat list" where
  \<comment> \<open>a page with one element of class \<^verbatim>\<open>card\<close> and three \<^verbatim>\<open>article\<close> elements\<close>
  "example_doc sel = (if sel = ''.card'' then [0] else if sel = ''article'' then [1, 2, 3] else [])"

theorem select_blocks_spec_witness:
  "example_doc ''article'' \<noteq> [] \<and>
   select_blocks example_doc (\<lambda>n. []) = ([1, 2, 3], Some ''article'') \<and>
   fst (select_blocks (\<lambda>sel. if sel = ''div'' then [0, 1 :: nat] else [])
          (\<lambda>n. if n = 0 then ''Total  Population 5'' else ''x Total Population 5'')) = [1]"
proof -
  have a: "example_doc ''article'' \<noteq> []" by (simp add: example_doc_def)
  have b: "select_blocks example_doc (\<lambda>n. []) = ([1, 2, 3], Some ''article'')" by code_simp
  have c: "\<forall>sel \<in> set CANDIDATE_CARD_SELECTORS.
      (\<lambda>sel. if sel = ''div'' then [0, 1 :: nat] else []) sel = []"
    by (simp add: CANDIDATE_CARD_SELECTORS_def)
  have d: "filter (\<lambda>el. includes_str (toLowerCase
        ((\<lambda>n. if n = (0 :: nat) then ''Total  Population 5'' else ''x Total Population 5'') el))
        ''total population'') ((\<lambda>sel. if sel = ''div'' then [0, 1 :: nat] else []) ''div'') = [1]"
    by code_simp
  from select_blocks_spec [of "\<lambda>sel. if sel = ''div'' then [0, 1 :: nat] else []"
      "\<lambda>n. if n = 0 then ''Total  Population 5'' else ''x Total Population 5''"] c
  have "fst (select_blocks (\<lambda>sel. if sel = ''div'' then [0, 1 :: nat] else [])
          (\<lambda>n. if n = 0 then ''Total  Population 5'' else ''x Total Population 5'')) = [1]"
    by (simp only: d)
  with a b show ?thesis by simp
qed

section \<open>The grade extractors\<close>

definition parsed_occurrences :: "string \<Rightarrow> (string \<times> number) list" where
  \<comment> \<open>the occurrences of the grade pattern whose value parses, in the order of the text,
      each under its label\<close>
  "parsed_occurrences text =
     List.map_filter (\<lambda>g. map_option (\<lambda>v. (''PSA '' @ grade g, v)) (gvalue g)) (findGrades text)"

lemma foldl_update_map_of:
  "map_of (foldl (\<lambda>gs (k, v). AList.update k v gs) gs0 ps) = map_of (rev ps @ gs0)"
proof (induction ps arbitrary: gs0)
  case Nil
  show ?case by simp
next
  case (Cons p ps)
  obtain k v where p: "p = (k, v)" by (cases p)
  show ?case
    unfolding p by (simp add: Cons.IH update_conv' map_add_def fun_eq_iff split: option.splits)
qed

lemma foldl_update_distinct:
  "distinct (map fst gs0) \<Longrightarrow>
   distinct (map fst (foldl (\<lambda>gs (k, v). AList.update k v gs) gs0 ps))"
proof (induction ps arbitrary: gs0)
  case Nil
  then show ?case by simp
next
  case (Cons p ps)
  obtain k v where p: "p = (k, v)" by (cases p)
  from Cons.prems have "distinct (map fst (AList.update k v gs0))" by (rule distinct_update)
  from Cons.IH [OF this] show ?case unfolding p by simp
qed

lemma foldl_grades_parsed:
  "foldl (\<lambda>gs g. case gvalue g of None \<Rightarrow> gs | Some v \<Rightarrow> set_grade (grade g) v gs) gs0 es =
   foldl (\<lambda>gs (k, v). AList.update k v gs) gs0
     (List.map_filter (\<lambda>g. map_option (\<lambda>v. (''PSA '' @ grade g, v)) (gvalue g)) es)"
proof (induction es arbitrary: gs0)
  case Nil
  show ?case by simp
next
  case (Cons e es)
  show ?case
    by (cases "gvalue e") (simp_all add: Cons.IH set_grade_def)
qed

lemma extractGradesMap_parsed:
  "extractGradesMap text =
     foldl (\<lambda>gs (k, v). AList.update k v gs) [] (parsed_occurrences text)"
  by (simp add: extractGradesMap_def parsed_occurrences_def foldl_grades_parsed)

lemma extractGrades_eq_Map: "extractGrades text = extractGradesMap text"
  by (simp add: extractGrades_def extractGradesMap_def findGrades_def foldl_map cong: option.case_cong)




section \<open>What the matchers consume\<close>

declare ms.simps(2) [simp del]
declare ms_Cls [simp]

lemma clear_caps_Nil [simp]: "clear_caps [] x = x"
  by (cases x) (simp add: clear_caps_def)

lemma not_space_digit: "is_digit c \<Longrightarrow> \<not> is_space c"
proof -
  have "\<forall>c \<in> set ''0123456789''. \<not> is_space c" by code_simp
  then show "is_digit c \<Longrightarrow> \<not> is_space c" unfolding is_digit_def by blast
qed

lemma not_space_slash: "\<not> is_space CHR ''/''"
  by code_simp

lemma not_digit_slash: "\<not> is_digit CHR ''/''"
  by code_simp

text \<open>A greedy repetition of a character class: every result has consumed between the
  minimum and the maximum number of characters of the class, and left the captures alone.\<close>

lemma rep_Cls_sound:
  "y \<in> set (rep_ms (ms (Cls p)) [] mn mx x) \<Longrightarrow> (\<forall>k. mx = Some k \<longrightarrow> mn \<le> k) \<Longrightarrow>
   \<exists>w. rest x = w @ rest y \<and> list_all p w \<and> mn \<le> length w \<and>
       (\<forall>k. mx = Some k \<longrightarrow> length w \<le> k) \<and> caps y = caps x"
proof (induction "ms (Cls p)" "[] :: nat list" mn mx x rule: rep_ms.induct)
  case (1 mn mx x)
  from rep_ms_cases [OF "1.prems"(1)] consider
      (base) "y = x" "mx = Some 0 \<or> mn = 0"
    | (step) z where "mx \<noteq> Some 0" "z \<in> set (ms (Cls p) (clear_caps [] x))"
        "mn = 0 \<longrightarrow> length (rest z) < length (rest x)"
        "y \<in> set (rep_ms (ms (Cls p)) [] (mn - 1) (dec_max mx) z)"
    by blast
  then show ?case
  proof cases
    case base
    with "1.prems"(2) show ?thesis by auto
  next
    case step
    note nz = step(1) and z = step(2) and g = step(3) and y = step(4)
    from g have g': "\<not> (mn = 0 \<and> \<not> length (rest z) < length (rest x))" by blast
    from "1.prems"(2) nz have b: "\<forall>k. dec_max mx = Some k \<longrightarrow> mn - 1 \<le> k"
      by (cases mx) (auto simp: dec_max_def)
    from "1.hyps" [OF nz z g' y b] obtain w where
      w: "rest z = w @ rest y" "list_all p w" "mn - 1 \<le> length w"
         "\<forall>k. dec_max mx = Some k \<longrightarrow> length w \<le> k" "caps y = caps z" by blast
    from z have zz: "rest x \<noteq> []" "p (hd (rest x))" "rest z = tl (rest x)" "caps z = caps x"
      by (simp_all add: ms_Cls_iff del: ms_Cls)
    let ?w = "hd (rest x) # w"
    from zz w have "rest x = ?w @ rest y" by (cases "rest x") simp_all
    moreover from zz w have "list_all p ?w" by simp
    moreover from w have "mn \<le> length ?w" by simp
    moreover from w nz have "\<forall>k. mx = Some k \<longrightarrow> length ?w \<le> k"
      by (cases mx) (auto simp: dec_max_def)
    moreover from w zz have "caps y = caps x" by simp
    ultimately show ?thesis by blast
  qed
qed

text \<open>Conversely, every count between the minimum and the maximum is among the results.\<close>

lemma rep_Cls_complete:
  "list_all p w \<Longrightarrow> mn \<le> length w \<Longrightarrow> (\<forall>k. mx = Some k \<longrightarrow> length w \<le> k) \<Longrightarrow>
   \<exists>pv'. MState pv' t c \<in> set (rep_ms (ms (Cls p)) [] mn mx (MState pv (w @ t) c))"
proof (induction w arbitrary: mn mx pv)
  case Nil
  then have "mn = 0" by simp
  then show ?case by (subst rep_ms.simps) (auto simp: Let_def)
next
  case (Cons a w)
  from Cons.prems have nz: "mx \<noteq> Some 0" by auto
  from Cons.prems have "list_all p w" "mn - 1 \<le> length w"
    "\<forall>k. dec_max mx = Some k \<longrightarrow> length w \<le> k"
    by (auto simp: dec_max_def)
  from Cons.IH [OF this, of "Some a"] obtain pv' where
    i: "MState pv' t c \<in> set (rep_ms (ms (Cls p)) [] (mn - 1) (dec_max mx) (MState (Some a) (w @ t) c))"
    by blast
  from Cons.prems have "ms (Cls p) (MState pv ((a # w) @ t) c) = [MState (Some a) (w @ t) c]"
    by simp
  with i nz show ?case by (subst rep_ms.simps) (auto simp: Let_def)
qed

text \<open>The first result of a greedy repetition takes every character of the class that
  is there, when that many are allowed.\<close>

lemma rep_Cls_first:
  "list_all p w \<Longrightarrow> mn \<le> length w \<Longrightarrow> (\<forall>k. mx = Some k \<longrightarrow> length w \<le> k) \<Longrightarrow>
   t = [] \<or> \<not> p (hd t) \<Longrightarrow>
   \<exists>zs. rep_ms (ms (Cls p)) [] mn mx (MState pv (w @ t) c) =
          MState (if w = [] then pv else Some (last w)) t c # zs"
proof (induction w arbitrary: mn mx pv)
  case Nil
  then have "mn = 0" by simp
  moreover from Nil.prems have "ms (Cls p) (MState pv t c) = []" by auto
  ultimately show ?case by (subst rep_ms.simps) (auto simp: Let_def)
next
  case (Cons a w)
  from Cons.prems have nz: "mx \<noteq> Some 0" by auto
  from Cons.prems have "list_all p w" "mn - 1 \<le> length w"
    "\<forall>k. dec_max mx = Some k \<longrightarrow> length w \<le> k" "t = [] \<or> \<not> p (hd t)"
    by (auto simp: dec_max_def)
  from Cons.IH [OF this, of "Some a"] obtain zs where
    i: "rep_ms (ms (Cls p)) [] (mn - 1) (dec_max mx) (MState (Some a) (w @ t) c) =
        MState (if w = [] then Some a else Some (last w)) t c # zs"
    by blast
  from Cons.prems have "ms (Cls p) (MState pv ((a # w) @ t) c) = [MState (Some a) (w @ t) c]"
    by simp
  with i nz show ?case by (subst rep_ms.simps) (auto simp: Let_def)
qed

lemma ms_Seq_first:
  "ms a x = y # ys \<Longrightarrow> ms b y = z # zs \<Longrightarrow> \<exists>zs'. ms (Seq a b) x = z # zs'"
  by simp

lemma ms_Grp_iff:
  "y \<in> set (ms (Grp n r) x) \<longleftrightarrow>
     (\<exists>z \<in> set (ms r x). y = MState (prev z) (rest z)
         ((caps z)(n := Some (take (length (rest x) - length (rest z)) (rest x)))))"
  by auto

lemma ms_Grp_first:
  "ms r x = z # zs \<Longrightarrow>
   \<exists>zs'. ms (Grp n r) x =
     MState (prev z) (rest z) ((caps z)(n := Some (take (length (rest x) - length (rest z)) (rest x)))) # zs'"
  by simp

text \<open>What \<^verbatim>\<open>exec\<close> reports is the first result of the matcher at some position of the text,
  and no position before it gives any result.\<close>

lemma search_sound:
  "search r pre pv s = Some m \<Longrightarrow>
   \<exists>s1 s2 pv' y ys. s = s1 @ s2 \<and> m_pre m = pre @ s1 \<and>
       ms r (MState pv' s2 (\<lambda>_. None)) = y # ys \<and>
       m_groups m = Some (take (length s2 - length (rest y)) s2) #
                    map (caps y) [1 ..< Suc (length (groups r))] \<and>
       m_post m = rest y"
proof (induction s arbitrary: pre pv)
  case Nil
  from search_cases [OF Nil] obtain y ys where
    "ms r (MState pv [] (\<lambda>_. None)) = y # ys"
    "m = RMatch pre (Some (take (length ([] :: string) - length (rest y)) []) #
           map (caps y) [1 ..< Suc (length (groups r))]) (prev y) (rest y)" by auto
  then show ?case by (intro exI [of _ "[]"]) auto
next
  case (Cons c cs)
  from search_cases [OF Cons.prems] show ?case
  proof (elim disjE exE conjE)
    fix y ys
    assume "ms r (MState pv (c # cs) (\<lambda>_. None)) = y # ys"
      and "m = RMatch pre (Some (take (length (c # cs) - length (rest y)) (c # cs)) #
                  map (caps y) [1 ..< Suc (length (groups r))]) (prev y) (rest y)"
    then show ?thesis by (intro exI [of _ "[]"] exI [of _ "c # cs"]) auto
  next
    fix c' cs'
    assume e: "c # cs = c' # cs'" and s: "search r (pre @ [c']) (Some c') cs' = Some m"
    from e s have "search r (pre @ [c]) (Some c) cs = Some m" by simp
    from Cons.IH [OF this] obtain s1 s2 pv' y ys where
      "cs = s1 @ s2" "m_pre m = (pre @ [c]) @ s1"
      "ms r (MState pv' s2 (\<lambda>_. None)) = y # ys"
      "m_groups m = Some (take (length s2 - length (rest y)) s2) #
                    map (caps y) [1 ..< Suc (length (groups r))]"
      "m_post m = rest y" by blast
    then show ?thesis by (intro exI [of _ "c # s1"] exI [of _ s2]) auto
  qed
qed

lemma search_first:
  "ms r (MState pv s (\<lambda>_. None)) = y # ys \<Longrightarrow>
   search r pre pv s =
     Some (RMatch pre (Some (take (length s - length (rest y)) s) #
             map (caps y) [1 ..< Suc (length (groups r))]) (prev y) (rest y))"
  by (subst search.simps) simp

lemma search_complete:
  "ms r (MState pv' s2 (\<lambda>_. None)) \<noteq> [] \<Longrightarrow>
   pv' = (if s1 = [] then pv else Some (last s1)) \<Longrightarrow>
   search r pre pv (s1 @ s2) \<noteq> None"
proof (induction s1 arbitrary: pre pv)
  case Nil
  then obtain y ys where "ms r (MState pv s2 (\<lambda>_. None)) = y # ys"
    by (cases "ms r (MState pv s2 (\<lambda>_. None))") auto
  from search_first [OF this] show ?case by simp
next
  case (Cons c s1)
  show ?case
  proof (cases "ms r (MState pv ((c # s1) @ s2) (\<lambda>_. None))")
    case Nil
    from Cons.prems have "pv' = (if s1 = [] then Some c else Some (last s1))" by simp
    from Cons.IH [OF Cons.prems(1) this, of "pre @ [c]"] Nil show ?thesis
      by (subst search.simps) simp
  next
    case (Cons y ys)
    from search_first [OF this] show ?thesis by simp
  qed
qed

section \<open>The first match\<close>

text \<open>The head of a matcher's results is what backtracking finds first.  For a sequence it
  comes from some result of the first part; for a greedy repetition of a character class
  it has taken every character of the class that is there, up to the maximum.\<close>

lemma concat_eq_Cons:
  "concat xss = y # ys \<Longrightarrow> \<exists>xs \<in> set xss. \<exists>ys'. xs = y # ys'"
proof (induction xss)
  case Nil
  then show ?case by simp
next
  case (Cons xs xss)
  then show ?case by (cases xs) auto
qed

lemma ms_Seq_head:
  "ms (Seq a b) x = y # ys \<Longrightarrow> \<exists>z \<in> set (ms a x). \<exists>ys'. ms b z = y # ys'"
proof -
  assume "ms (Seq a b) x = y # ys"
  then have "concat (map (ms b) (ms a x)) = y # ys" by simp
  from concat_eq_Cons [OF this] show ?thesis by auto
qed

lemma ms_Grp_head:
  "ms (Grp n r) x = y # ys \<Longrightarrow>
   \<exists>z zs. ms r x = z # zs \<and>
     y = MState (prev z) (rest z)
           ((caps z)(n := Some (take (length (rest x) - length (rest z)) (rest x))))"
  by (cases "ms r x") auto

lemma rep_ms_min0: "rep_ms m gs 0 mx x \<noteq> []"
  by (subst rep_ms.simps) (simp add: Let_def)

lemma rep_Cls_head:
  "rep_ms (ms (Cls p)) [] mn mx x = y # ys \<Longrightarrow> (\<forall>k. mx = Some k \<longrightarrow> mn \<le> k) \<Longrightarrow>
   \<exists>w. rest x = w @ rest y \<and> list_all p w \<and> mn \<le> length w \<and>
       (\<forall>k. mx = Some k \<longrightarrow> length w \<le> k) \<and> caps y = caps x \<and>
       (rest y = [] \<or> \<not> p (hd (rest y)) \<or> mx = Some (length w))"
proof (induction "ms (Cls p)" "[] :: nat list" mn mx x arbitrary: ys rule: rep_ms.induct)
  case (1 mn mx x)
  show ?case
  proof (cases "mx = Some 0")
    case True
    with "1.prems"(1) have "y = x" by (subst (asm) rep_ms.simps) simp
    with True "1.prems"(2) show ?thesis by auto
  next
    case nz: False
    show ?thesis
    proof (cases "rest x = [] \<or> \<not> p (hd (rest x))")
      case True
      then have e: "ms (Cls p) x = []" by (cases "rest x") auto
      from "1.prems"(1) nz e have "mn = 0 \<and> y = x"
        by (subst (asm) rep_ms.simps) (auto simp: Let_def split: if_splits)
      with True show ?thesis by auto
    next
      case False
      define z where "z = MState (Some (hd (rest x))) (tl (rest x)) (caps x)"
      from False have e: "ms (Cls p) x = [z]" by (cases "rest x") (auto simp: z_def)
      from False have l: "length (rest z) < length (rest x)" by (cases "rest x") (auto simp: z_def)
      have ne: "rep_ms (ms (Cls p)) [] (mn - 1) (dec_max mx) z \<noteq> []"
      proof (cases "mn = 0")
        case True
        then show ?thesis by (simp add: rep_ms_min0)
      next
        case False
        with "1.prems"(1) nz e l show ?thesis
          by (subst (asm) rep_ms.simps) (auto simp: Let_def split: if_splits)
      qed
      then obtain y' ys' where i: "rep_ms (ms (Cls p)) [] (mn - 1) (dec_max mx) z = y' # ys'"
        by (cases "rep_ms (ms (Cls p)) [] (mn - 1) (dec_max mx) z") auto
      from "1.prems"(1) nz e l i have yy: "y' = y"
        by (subst (asm) rep_ms.simps) (auto simp: Let_def split: if_splits)
      from e have zin: "z \<in> set (ms (Cls p) (clear_caps [] x))" by simp
      from l have g': "\<not> (mn = 0 \<and> \<not> length (rest z) < length (rest x))" by blast
      from "1.prems"(2) nz have b: "\<forall>k. dec_max mx = Some k \<longrightarrow> mn - 1 \<le> k"
        by (cases mx) (auto simp: dec_max_def)
      from "1.hyps" [OF nz zin g' i [unfolded yy] b] obtain w where
        w: "rest z = w @ rest y" "list_all p w" "mn - 1 \<le> length w"
           "\<forall>k. dec_max mx = Some k \<longrightarrow> length w \<le> k" "caps y = caps z"
           "rest y = [] \<or> \<not> p (hd (rest y)) \<or> dec_max mx = Some (length w)" by blast
      let ?w = "hd (rest x) # w"
      from False w have "rest x = ?w @ rest y" by (cases "rest x") (simp_all add: z_def)
      moreover from False w have "list_all p ?w" by simp
      moreover from w have "mn \<le> length ?w" by simp
      moreover from w nz have "\<forall>k. mx = Some k \<longrightarrow> length ?w \<le> k"
        by (cases mx) (auto simp: dec_max_def)
      moreover from w have "caps y = caps x" by (simp add: z_def)
      moreover from w(6) nz have "rest y = [] \<or> \<not> p (hd (rest y)) \<or> mx = Some (length ?w)"
        by (cases mx) (auto simp: dec_max_def)
      ultimately show ?thesis by blast
    qed
  qed
qed

text \<open>What \<^verbatim>\<open>exec\<close> reports starts at the first position of the text at which the matcher
  has a result.\<close>

lemma search_leftmost:
  "search r pre pv s = Some m \<Longrightarrow>
   \<exists>s1 s2 y ys. s = s1 @ s2 \<and> m_pre m = pre @ s1 \<and>
       ms r (MState (if s1 = [] then pv else Some (last s1)) s2 (\<lambda>_. None)) = y # ys \<and>
       m_groups m = Some (take (length s2 - length (rest y)) s2) #
                    map (caps y) [1 ..< Suc (length (groups r))] \<and>
       m_post m = rest y \<and>
       (\<forall>a b. s = a @ b \<and> length a < length s1 \<longrightarrow>
          ms r (MState (if a = [] then pv else Some (last a)) b (\<lambda>_. None)) = [])"
proof (induction s arbitrary: pre pv)
  case Nil
  from search_cases [OF Nil] obtain y ys where
    "ms r (MState pv [] (\<lambda>_. None)) = y # ys"
    "m = RMatch pre (Some (take (length ([] :: string) - length (rest y)) []) #
           map (caps y) [1 ..< Suc (length (groups r))]) (prev y) (rest y)" by auto
  then show ?case by (intro exI [of _ "[]"]) auto
next
  case (Cons c cs)
  from search_cases [OF Cons.prems] show ?case
  proof (elim disjE exE conjE)
    fix y ys
    assume "ms r (MState pv (c # cs) (\<lambda>_. None)) = y # ys"
      and "m = RMatch pre (Some (take (length (c # cs) - length (rest y)) (c # cs)) #
                  map (caps y) [1 ..< Suc (length (groups r))]) (prev y) (rest y)"
    then show ?thesis by (intro exI [of _ "[]"] exI [of _ "c # cs"]) auto
  next
    fix c' cs'
    assume n: "ms r (MState pv (c # cs) (\<lambda>_. None)) = []"
      and e: "c # cs = c' # cs'" and s: "search r (pre @ [c']) (Some c') cs' = Some m"
    from e s have "search r (pre @ [c]) (Some c) cs = Some m" by simp
    from Cons.IH [OF this] obtain s1 s2 y ys where
      i: "cs = s1 @ s2" "m_pre m = (pre @ [c]) @ s1"
      "ms r (MState (if s1 = [] then Some c else Some (last s1)) s2 (\<lambda>_. None)) = y # ys"
      "m_groups m = Some (take (length s2 - length (rest y)) s2) #
                    map (caps y) [1 ..< Suc (length (groups r))]"
      "m_post m = rest y" and
      l: "\<forall>a b. cs = a @ b \<and> length a < length s1 \<longrightarrow>
          ms r (MState (if a = [] then Some c else Some (last a)) b (\<lambda>_. None)) = []"
      by blast
    have "\<forall>a b. c # cs = a @ b \<and> length a < length (c # s1) \<longrightarrow>
          ms r (MState (if a = [] then pv else Some (last a)) b (\<lambda>_. None)) = []"
    proof (intro allI impI)
      fix a b
      assume ab: "c # cs = a @ b \<and> length a < length (c # s1)"
      show "ms r (MState (if a = [] then pv else Some (last a)) b (\<lambda>_. None)) = []"
      proof (cases a)
        case Nil
        with ab n show ?thesis by simp
      next
        case (Cons a0 a')
        with ab have ab': "cs = a' @ b \<and> length a' < length s1" by auto
        from l ab' have "ms r (MState (if a' = [] then Some c else Some (last a')) b (\<lambda>_. None)) = []"
          by blast
        moreover from Cons ab have "(if a = [] then pv else Some (last a)) =
            (if a' = [] then Some c else Some (last a'))" by auto
        ultimately show ?thesis by simp
      qed
    qed
    with i show ?thesis by (intro exI [of _ "c # s1"] exI [of _ s2]) auto
  qed
qed

text \<open>Leftmost and longest: the occurrence of a shape in a text that starts first and,
  among those that start there, is the longest.\<close>

definition leftmost_longest :: "(string \<Rightarrow> bool) \<Rightarrow> string \<Rightarrow> string \<Rightarrow> bool" where
  "leftmost_longest shape t f \<longleftrightarrow>
     (\<exists>pre post. t = pre @ f @ post \<and> shape f \<and>
        (\<forall>pre' f' post'. t = pre' @ f' @ post' \<and> shape f' \<longrightarrow>
           length pre \<le> length pre' \<and> (length pre' = length pre \<longrightarrow> length f' \<le> length f)))"

lemma leftmost_longest_unique:
  assumes "leftmost_longest shape t f" "leftmost_longest shape t g"
  shows "f = g"
proof -
  from assms(1) obtain pre post where
    f: "t = pre @ f @ post" "shape f" and
    fm: "\<And>pre' f' post'. t = pre' @ f' @ post' \<Longrightarrow> shape f' \<Longrightarrow>
           length pre \<le> length pre' \<and> (length pre' = length pre \<longrightarrow> length f' \<le> length f)"
    unfolding leftmost_longest_def by blast
  from assms(2) obtain pre2 post2 where
    g: "t = pre2 @ g @ post2" "shape g" and
    gm: "\<And>pre' f' post'. t = pre' @ f' @ post' \<Longrightarrow> shape f' \<Longrightarrow>
           length pre2 \<le> length pre' \<and> (length pre' = length pre2 \<longrightarrow> length f' \<le> length g)"
    unfolding leftmost_longest_def by blast
  from fm [OF g] gm [OF f] have l: "length pre = length pre2" "length f = length g" by auto
  from f(1) g(1) have "pre @ f @ post = pre2 @ g @ post2" by simp
  with l show ?thesis by simp
qed

text \<open>A run of characters of a class, followed by a character outside it, is determined
  by the text it starts.\<close>

lemma run_unique:
  assumes "a @ r = a' @ r'" "list_all p a" "list_all p a'"
    "r = [] \<or> \<not> p (hd r)" "r' = [] \<or> \<not> p (hd r')"
  shows "a = a' \<and> r = r'"
proof -
  from assms(2,4) have "takeWhile p (a @ r) = a"
    by (cases r) (auto simp: list_all_iff)
  moreover from assms(3,5) have "takeWhile p (a' @ r') = a'"
    by (cases r') (auto simp: list_all_iff)
  ultimately have "a = a'" using assms(1) by simp
  with assms(1) show ?thesis by simp
qed

lemma run_longest:
  assumes "a @ r = a' @ r'" "list_all p a" "list_all p a'"
    "r = [] \<or> \<not> p (hd r) \<or> length a = k" "length a' \<le> k"
  shows "length a' \<le> length a"
proof (cases "length a = k")
  case True
  with assms(5) show ?thesis by simp
next
  case False
  with assms(2,4) have "takeWhile p (a @ r) = a"
    by (cases r) (auto simp: list_all_iff)
  moreover from assms(3) have "takeWhile p (a' @ r') = a' @ takeWhile p r'"
    by (auto simp: list_all_iff)
  ultimately have "a = a' @ takeWhile p r'" using assms(1) by simp
  then have "length a = length a' + length (takeWhile p r')" by (metis length_append)
  then show ?thesis by simp
qed

section \<open>The card-number extractor\<close>

definition digits_1_4 :: "string \<Rightarrow> bool" where
  \<comment> \<open>one to four digits\<close>
  "digits_1_4 d \<longleftrightarrow> d \<noteq> [] \<and> length d \<le> 4 \<and> list_all is_digit d"

definition fraction_shaped :: "string \<Rightarrow> bool" where
  \<comment> \<open>one to four digits, a slash with white space allowed around it, one to four digits\<close>
  "fraction_shaped f \<longleftrightarrow>
     (\<exists>d1 w1 w2 d2. f = d1 @ w1 @ ''/'' @ w2 @ d2 \<and> digits_1_4 d1 \<and> digits_1_4 d2 \<and>
        list_all is_space w1 \<and> list_all is_space w2)"

lemma groups_frac_body [simp]: "groups frac_body = []"
  by (simp add: frac_body_def digit_rx_def ws_rx_def Star_def Chr_def)

lemma frac_body_sound:
  assumes "y \<in> set (ms frac_body x)"
  shows "\<exists>f. fraction_shaped f \<and> rest x = f @ rest y \<and> strip_ws f \<noteq> [] \<and>
           (\<exists>d1 d2. strip_ws f = d1 @ ''/'' @ d2 \<and> digits_1_4 d1 \<and> digits_1_4 d2)"
proof -
  from assms obtain z1 z2 z3 z4 where
    z1: "z1 \<in> set (rep_ms (ms (Cls is_digit)) [] 1 (Some 4) x)" and
    z2: "z2 \<in> set (rep_ms (ms (Cls is_space)) [] 0 None z1)" and
    z3: "z3 \<in> set (ms (Cls (\<lambda>c. c = CHR ''/'')) z2)" and
    z4: "z4 \<in> set (rep_ms (ms (Cls is_space)) [] 0 None z3)" and
    y: "y \<in> set (rep_ms (ms (Cls is_digit)) [] 1 (Some 4) z4)"
    by (auto simp: frac_body_def digit_rx_def ws_rx_def Star_def Chr_def simp del: ms_Cls)
  from rep_Cls_sound [OF z1] obtain d1 where
    d1: "rest x = d1 @ rest z1" "list_all is_digit d1" "1 \<le> length d1" "length d1 \<le> 4" by auto
  from rep_Cls_sound [OF z2] obtain w1 where
    w1: "rest z1 = w1 @ rest z2" "list_all is_space w1" by auto
  from z3 have s: "rest z2 = CHR ''/'' # rest z3"
    by (cases "rest z2") (auto simp: ms_Cls_iff simp del: ms_Cls)
  from rep_Cls_sound [OF z4] obtain w2 where
    w2: "rest z3 = w2 @ rest z4" "list_all is_space w2" by auto
  from rep_Cls_sound [OF y] obtain d2 where
    d2: "rest z4 = d2 @ rest y" "list_all is_digit d2" "1 \<le> length d2" "length d2 \<le> 4" by auto
  let ?f = "d1 @ w1 @ ''/'' @ w2 @ d2"
  from d1 d2 have dd: "digits_1_4 d1" "digits_1_4 d2" by (auto simp: digits_1_4_def)
  with w1 w2 have "fraction_shaped ?f" unfolding fraction_shaped_def by blast
  moreover from d1 w1 s w2 d2 have "rest x = ?f @ rest y" by simp
  moreover have st: "strip_ws ?f = d1 @ ''/'' @ d2"
  proof -
    from d1(2) have "filter (\<lambda>c. \<not> is_space c) d1 = d1"
      by (auto simp: list_all_iff not_space_digit intro: filter_True)
    moreover from d2(2) have "filter (\<lambda>c. \<not> is_space c) d2 = d2"
      by (auto simp: list_all_iff not_space_digit intro: filter_True)
    moreover from w1(2) have "filter (\<lambda>c. \<not> is_space c) w1 = []"
      by (auto simp: list_all_iff filter_empty_conv)
    moreover from w2(2) have "filter (\<lambda>c. \<not> is_space c) w2 = []"
      by (auto simp: list_all_iff filter_empty_conv)
    ultimately show ?thesis by (simp add: strip_ws_def not_space_slash)
  qed
  moreover from st have "strip_ws ?f \<noteq> []" by simp
  ultimately show ?thesis using dd by blast
qed

lemma frac_body_complete:
  assumes "fraction_shaped f"
  shows "ms frac_body (MState pv (f @ t) c) \<noteq> []"
proof -
  from assms obtain d1 w1 w2 d2 where
    f: "f = d1 @ w1 @ ''/'' @ w2 @ d2" and d1: "digits_1_4 d1" and d2: "digits_1_4 d2" and
    w1: "list_all is_space w1" and w2: "list_all is_space w2"
    unfolding fraction_shaped_def by blast
  from d1 have "list_all is_digit d1" "1 \<le> length d1" "\<forall>k. Some 4 = Some k \<longrightarrow> length d1 \<le> k"
    by (auto simp: digits_1_4_def Suc_le_eq)
  from rep_Cls_complete [OF this] obtain p1 where
    s1: "MState p1 (w1 @ ''/'' @ w2 @ d2 @ t) c \<in>
       set (rep_ms (ms (Cls is_digit)) [] 1 (Some 4) (MState pv (d1 @ w1 @ ''/'' @ w2 @ d2 @ t) c))"
    by blast
  from w1 have "list_all is_space w1" "0 \<le> length w1" "\<forall>k. None = Some k \<longrightarrow> length w1 \<le> k"
    by auto
  from rep_Cls_complete [OF this] obtain p2 where
    s2: "MState p2 (''/'' @ w2 @ d2 @ t) c \<in>
       set (rep_ms (ms (Cls is_space)) [] 0 None (MState p1 (w1 @ ''/'' @ w2 @ d2 @ t) c))"
    by blast
  have s3: "MState (Some CHR ''/'') (w2 @ d2 @ t) c \<in>
       set (ms (Cls (\<lambda>c. c = CHR ''/'')) (MState p2 (''/'' @ w2 @ d2 @ t) c))" by simp
  from w2 have "list_all is_space w2" "0 \<le> length w2" "\<forall>k. None = Some k \<longrightarrow> length w2 \<le> k"
    by auto
  from rep_Cls_complete [OF this] obtain p4 where
    s4: "MState p4 (d2 @ t) c \<in>
       set (rep_ms (ms (Cls is_space)) [] 0 None (MState (Some CHR ''/'') (w2 @ d2 @ t) c))"
    by blast
  from d2 have "list_all is_digit d2" "1 \<le> length d2" "\<forall>k. Some 4 = Some k \<longrightarrow> length d2 \<le> k"
    by (auto simp: digits_1_4_def Suc_le_eq)
  from rep_Cls_complete [OF this] obtain p5 where
    s5: "MState p5 t c \<in>
       set (rep_ms (ms (Cls is_digit)) [] 1 (Some 4) (MState p4 (d2 @ t) c))"
    by blast
  from s1 s2 s3 s4 s5 have "MState p5 t c \<in> set (ms frac_body (MState pv (f @ t) c))"
    unfolding f frac_body_def digit_rx_def ws_rx_def Star_def Chr_def
    by (auto simp del: ms_Cls)
  then show ?thesis by auto
qed

lemma frac_body_first:
  assumes d1: "digits_1_4 d1" and d2: "digits_1_4 d2"
  shows "\<exists>zs. ms frac_body (MState pv (d1 @ ''/'' @ d2) c) = MState (Some (last d2)) [] c # zs"
proof -
  from d1 have "list_all is_digit d1" "1 \<le> length d1" "\<forall>k. Some 4 = Some k \<longrightarrow> length d1 \<le> k"
    "''/'' @ d2 = [] \<or> \<not> is_digit (hd (''/'' @ d2))"
    by (auto simp: digits_1_4_def Suc_le_eq not_digit_slash)
  from rep_Cls_first [OF this, of pv c] d1 obtain zs1 where
    s1: "ms (Rep 1 (Some 4) digit_rx) (MState pv (d1 @ ''/'' @ d2) c) =
           MState (Some (last d1)) (''/'' @ d2) c # zs1"
    by (auto simp: digits_1_4_def digit_rx_def)
  have "list_all is_space []" "0 \<le> length ([] :: string)"
    "\<forall>k. None = Some k \<longrightarrow> length ([] :: string) \<le> k"
    "''/'' @ d2 = [] \<or> \<not> is_space (hd (''/'' @ d2))"
    by (auto simp: not_space_slash)
  from rep_Cls_first [OF this, of "Some (last d1)" c] obtain zs2 where
    s2: "ms (Star ws_rx) (MState (Some (last d1)) (''/'' @ d2) c) =
           MState (Some (last d1)) (''/'' @ d2) c # zs2"
    by (auto simp: Star_def ws_rx_def)
  have s3: "ms (Chr CHR ''/'') (MState (Some (last d1)) (''/'' @ d2) c) =
           MState (Some CHR ''/'') d2 c # []"
    by (simp add: Chr_def)
  from d2 have "list_all is_space []" "0 \<le> length ([] :: string)"
    "\<forall>k. None = Some k \<longrightarrow> length ([] :: string) \<le> k"
    "d2 = [] \<or> \<not> is_space (hd d2)"
    by (cases d2; auto simp: digits_1_4_def not_space_digit)+
  from rep_Cls_first [OF this, of "Some CHR ''/''" c] obtain zs4 where
    s4: "ms (Star ws_rx) (MState (Some CHR ''/'') d2 c) = MState (Some CHR ''/'') d2 c # zs4"
    by (auto simp: Star_def ws_rx_def)
  from d2 have "list_all is_digit d2" "1 \<le> length d2" "\<forall>k. Some 4 = Some k \<longrightarrow> length d2 \<le> k"
    "([] :: string) = [] \<or> \<not> is_digit (hd [])"
    by (auto simp: digits_1_4_def Suc_le_eq)
  from rep_Cls_first [OF this, of "Some CHR ''/''" c] d2 obtain zs5 where
    s5: "ms (Rep 1 (Some 4) digit_rx) (MState (Some CHR ''/'') d2 c) =
           MState (Some (last d2)) [] c # zs5"
    by (auto simp: digits_1_4_def digit_rx_def)
  from ms_Seq_first [OF s4 s5] obtain r4 where
    "ms (Seq (Star ws_rx) (Rep 1 (Some 4) digit_rx)) (MState (Some CHR ''/'') d2 c) =
       MState (Some (last d2)) [] c # r4" by blast
  from ms_Seq_first [OF s3 this] obtain r3 where
    "ms (Seq (Chr CHR ''/'') (Seq (Star ws_rx) (Rep 1 (Some 4) digit_rx)))
       (MState (Some (last d1)) (''/'' @ d2) c) = MState (Some (last d2)) [] c # r3" by blast
  from ms_Seq_first [OF s2 this] obtain r2 where
    "ms (Seq (Star ws_rx) (Seq (Chr CHR ''/'') (Seq (Star ws_rx) (Rep 1 (Some 4) digit_rx))))
       (MState (Some (last d1)) (''/'' @ d2) c) = MState (Some (last d2)) [] c # r2" by blast
  from ms_Seq_first [OF s1 this] show ?thesis unfolding frac_body_def by blast
qed

lemma extractCardNumberChunk_shape:
  assumes "extractCardNumberChunk text = Some r"
  shows "\<exists>d1 d2. r = d1 @ ''/'' @ d2 \<and> digits_1_4 d1 \<and> digits_1_4 d2"
proof -
  from assms obtain m where m: "exec frac_rx text = Some m" and r: "r = strip_ws (group_text m 1)"
    by (auto simp: extractCardNumberChunk_def split: option.splits)
  from search_sound [OF m [unfolded exec_def]] obtain s1 s2 pv' y ys where
    "text = s1 @ s2" and
    y: "ms frac_rx (MState pv' s2 (\<lambda>_. None)) = y # ys" and
    g: "m_groups m = Some (take (length s2 - length (rest y)) s2) #
          map (caps y) [1 ..< Suc (length (groups frac_rx))]"
    by blast
  from g have g1: "group_text m 1 = (case caps y 1 of None \<Rightarrow> [] | Some t \<Rightarrow> t)"
    by (simp add: group_text_def frac_rx_def)
  from y have "y \<in> set (ms (Grp 1 frac_body) (MState pv' s2 (\<lambda>_. None)))"
    by (simp add: frac_rx_def)
  then obtain z where z: "z \<in> set (ms frac_body (MState pv' s2 (\<lambda>_. None)))"
    and c: "caps y 1 = Some (take (length s2 - length (rest z)) s2)"
    unfolding ms_Grp_iff by auto
  from frac_body_sound [OF z] obtain f d1 d2 where
    f: "s2 = f @ rest z" "strip_ws f = d1 @ ''/'' @ d2" "digits_1_4 d1" "digits_1_4 d2"
    by auto
  from f(1) have "take (length s2 - length (rest z)) s2 = f" by simp
  with c g1 r f show ?thesis by auto
qed

lemma extractCardNumberChunk_fixed:
  assumes "digits_1_4 d1" "digits_1_4 d2"
  shows "extractCardNumberChunk (d1 @ ''/'' @ d2) = Some (d1 @ ''/'' @ d2)"
proof -
  let ?r = "d1 @ ''/'' @ d2"
  from frac_body_first [OF assms, of None "\<lambda>_. None"] obtain zs where
    "ms frac_body (MState None ?r (\<lambda>_. None)) = MState (Some (last d2)) [] (\<lambda>_. None) # zs"
    by blast
  then have "ms frac_rx (MState None ?r (\<lambda>_. None)) =
      MState (Some (last d2)) [] ((\<lambda>_. None)(1 := Some ?r)) # map (\<lambda>y. MState (prev y) (rest y)
         ((caps y)(1 := Some (take (length ?r - length (rest y)) ?r)))) zs"
    by (simp add: frac_rx_def)
  from search_first [OF this, of "[]"]
  have "exec frac_rx ?r = Some (RMatch [] [Some ?r, Some ?r] (Some (last d2)) [])"
    by (simp add: exec_def frac_rx_def)
  moreover have "strip_ws ?r = ?r"
  proof -
    from assms have "\<forall>c \<in> set ?r. \<not> is_space c"
      by (auto simp: digits_1_4_def list_all_iff not_space_digit not_space_slash)
    then show ?thesis unfolding strip_ws_def by (intro filter_True) simp
  qed
  ultimately show ?thesis by (simp add: extractCardNumberChunk_def group_text_def)
qed

lemma extractCardNumberChunk_None_iff:
  "extractCardNumberChunk text = None \<longleftrightarrow>
     \<not> (\<exists>pre f post. text = pre @ f @ post \<and> fraction_shaped f)"
proof
  assume n: "extractCardNumberChunk text = None"
  show "\<not> (\<exists>pre f post. text = pre @ f @ post \<and> fraction_shaped f)"
  proof
    assume "\<exists>pre f post. text = pre @ f @ post \<and> fraction_shaped f"
    then obtain pre f post where t: "text = pre @ f @ post" and f: "fraction_shaped f" by blast
    from frac_body_complete [OF f, of "if pre = [] then None else Some (last pre)" post "\<lambda>_. None"]
    have "ms frac_rx (MState (if pre = [] then None else Some (last pre)) (f @ post) (\<lambda>_. None)) \<noteq> []"
      by (simp add: frac_rx_def)
    from search_complete [OF this refl, of "[]"] have "exec frac_rx text \<noteq> None"
      by (simp add: exec_def t)
    with n show False by (auto simp: extractCardNumberChunk_def split: option.splits)
  qed
next
  assume a: "\<not> (\<exists>pre f post. text = pre @ f @ post \<and> fraction_shaped f)"
  show "extractCardNumberChunk text = None"
  proof (rule ccontr)
    assume "extractCardNumberChunk text \<noteq> None"
    then obtain m where m: "exec frac_rx text = Some m"
      by (auto simp: extractCardNumberChunk_def split: option.splits)
    from search_sound [OF m [unfolded exec_def]] obtain s1 s2 pv' y ys where
      t: "text = s1 @ s2" and y: "ms frac_rx (MState pv' s2 (\<lambda>_. None)) = y # ys" by blast
    from y have "y \<in> set (ms (Grp 1 frac_body) (MState pv' s2 (\<lambda>_. None)))"
      by (simp add: frac_rx_def)
    then obtain z where z: "z \<in> set (ms frac_body (MState pv' s2 (\<lambda>_. None)))"
      unfolding ms_Grp_iff by auto
    from frac_body_sound [OF z] obtain f where "fraction_shaped f" "s2 = f @ rest z" by auto
    with t a show False by auto
  qed
qed

text \<open>The first result of the matcher for a fraction: the second run of digits is as long
  as the text and the bound of four allow.\<close>

lemma frac_body_head:
  assumes "ms frac_body x = y # ys"
  shows "\<exists>d1 w1 w2 d2. rest x = d1 @ w1 @ ''/'' @ w2 @ d2 @ rest y \<and>
           digits_1_4 d1 \<and> digits_1_4 d2 \<and> list_all is_space w1 \<and> list_all is_space w2 \<and>
           (rest y = [] \<or> \<not> is_digit (hd (rest y)) \<or> length d2 = 4)"
proof -
  from ms_Seq_head [OF assms [unfolded frac_body_def]] obtain z1 ys1 where
    z1: "z1 \<in> set (ms (Rep 1 (Some 4) digit_rx) x)" and
    t1: "ms (Seq (Star ws_rx) (Seq (Chr CHR ''/'') (Seq (Star ws_rx) (Rep 1 (Some 4) digit_rx)))) z1
           = y # ys1" by blast
  from ms_Seq_head [OF t1] obtain z2 ys2 where
    z2: "z2 \<in> set (ms (Star ws_rx) z1)" and
    t2: "ms (Seq (Chr CHR ''/'') (Seq (Star ws_rx) (Rep 1 (Some 4) digit_rx))) z2 = y # ys2"
    by blast
  from ms_Seq_head [OF t2] obtain z3 ys3 where
    z3: "z3 \<in> set (ms (Chr CHR ''/'') z2)" and
    t3: "ms (Seq (Star ws_rx) (Rep 1 (Some 4) digit_rx)) z3 = y # ys3" by blast
  from ms_Seq_head [OF t3] obtain z4 ys4 where
    z4: "z4 \<in> set (ms (Star ws_rx) z3)" and
    t4: "ms (Rep 1 (Some 4) digit_rx) z4 = y # ys4" by blast
  from z1 have "z1 \<in> set (rep_ms (ms (Cls is_digit)) [] 1 (Some 4) x)"
    by (simp add: digit_rx_def)
  from rep_Cls_sound [OF this] obtain d1 where
    d1: "rest x = d1 @ rest z1" "list_all is_digit d1" "1 \<le> length d1" "length d1 \<le> 4" by auto
  from z2 have "z2 \<in> set (rep_ms (ms (Cls is_space)) [] 0 None z1)"
    by (simp add: Star_def ws_rx_def)
  from rep_Cls_sound [OF this] obtain w1 where
    w1: "rest z1 = w1 @ rest z2" "list_all is_space w1" by auto
  from z3 have s: "rest z2 = CHR ''/'' # rest z3"
    by (cases "rest z2") (auto simp: Chr_def ms_Cls_iff simp del: ms_Cls)
  from z4 have "z4 \<in> set (rep_ms (ms (Cls is_space)) [] 0 None z3)"
    by (simp add: Star_def ws_rx_def)
  from rep_Cls_sound [OF this] obtain w2 where
    w2: "rest z3 = w2 @ rest z4" "list_all is_space w2" by auto
  from t4 have "rep_ms (ms (Cls is_digit)) [] 1 (Some 4) z4 = y # ys4"
    by (simp add: digit_rx_def)
  from rep_Cls_head [OF this] obtain d2 where
    d2: "rest z4 = d2 @ rest y" "list_all is_digit d2" "1 \<le> length d2" "length d2 \<le> 4"
      "rest y = [] \<or> \<not> is_digit (hd (rest y)) \<or> length d2 = 4" by auto
  from d1 w1 s w2 d2 have "rest x = d1 @ w1 @ ''/'' @ w2 @ d2 @ rest y" by simp
  moreover from d1 d2 have "digits_1_4 d1" "digits_1_4 d2" by (auto simp: digits_1_4_def)
  ultimately show ?thesis using w1(2) w2(2) d2(5) by blast
qed

text \<open>A fraction-shaped token that starts a text is determined by the text up to the
  length of its second run of digits.\<close>

lemma fraction_longest:
  assumes f: "digits_1_4 d1" "digits_1_4 d2" "list_all is_space w1" "list_all is_space w2"
      "t = [] \<or> \<not> is_digit (hd t) \<or> length d2 = 4"
    and g: "fraction_shaped g" "d1 @ w1 @ ''/'' @ w2 @ d2 @ t = g @ u"
  shows "length g \<le> length (d1 @ w1 @ ''/'' @ w2 @ d2)"
proof -
  from g(1) obtain e1 v1 v2 e2 where
    ge: "g = e1 @ v1 @ ''/'' @ v2 @ e2" and e: "digits_1_4 e1" "digits_1_4 e2"
      "list_all is_space v1" "list_all is_space v2"
    unfolding fraction_shaped_def by blast
  have nd: "\<And>w r. list_all is_space w \<Longrightarrow> \<not> is_digit (hd (w @ ''/'' @ r))"
  proof -
    fix w :: string and r
    assume "list_all is_space w"
    then show "\<not> is_digit (hd (w @ ''/'' @ r))"
      by (cases w) (auto simp: not_digit_slash dest: not_space_digit)
  qed
  from g(2) ge have 1: "d1 @ (w1 @ ''/'' @ w2 @ d2 @ t) = e1 @ (v1 @ ''/'' @ v2 @ e2 @ u)" by simp
  from f(1) e(1) have "list_all is_digit d1" "list_all is_digit e1" by (simp_all add: digits_1_4_def)
  from run_unique [OF 1 this] nd [OF f(3)] nd [OF e(3)]
  have a: "d1 = e1" "w1 @ ''/'' @ w2 @ d2 @ t = v1 @ ''/'' @ v2 @ e2 @ u" by simp_all
  from run_unique [OF a(2) f(3) e(3)]
  have b: "w1 = v1" "w2 @ d2 @ t = v2 @ e2 @ u" by (simp_all add: not_space_slash)
  have nsp: "\<And>d r. digits_1_4 d \<Longrightarrow> \<not> is_space (hd (d @ r))"
  proof -
    fix d :: string and r
    assume "digits_1_4 d"
    then show "\<not> is_space (hd (d @ r))"
      by (cases d) (auto simp: digits_1_4_def dest: not_space_digit)
  qed
  from f(2) e(2) have ns: "\<not> is_space (hd (d2 @ t))" "\<not> is_space (hd (e2 @ u))"
    by (simp_all add: nsp)
  from run_unique [OF b(2) f(4) e(4)] ns
  have c: "w2 = v2" "d2 @ t = e2 @ u" by simp_all
  from f(2) e(2) have dd: "list_all is_digit d2" "list_all is_digit e2" "length e2 \<le> 4"
    by (simp_all add: digits_1_4_def)
  from run_longest [OF c(2) dd(1,2) f(5) dd(3)] have "length e2 \<le> length d2" .
  with a b c ge show ?thesis by simp
qed

lemma extractCardNumberChunk_leftmost:
  assumes "extractCardNumberChunk text = Some r"
  shows "\<exists>f. leftmost_longest fraction_shaped text f \<and> r = strip_ws f"
proof -
  from assms obtain m where m: "exec frac_rx text = Some m" and r: "r = strip_ws (group_text m 1)"
    by (auto simp: extractCardNumberChunk_def split: option.splits)
  from search_leftmost [OF m [unfolded exec_def]] obtain s1 s2 y ys where
    t: "text = s1 @ s2" and
    y: "ms frac_rx (MState (if s1 = [] then None else Some (last s1)) s2 (\<lambda>_. None)) = y # ys" and
    g: "m_groups m = Some (take (length s2 - length (rest y)) s2) #
          map (caps y) [1 ..< Suc (length (groups frac_rx))]" and
    l: "\<forall>a b. text = a @ b \<and> length a < length s1 \<longrightarrow>
          ms frac_rx (MState (if a = [] then None else Some (last a)) b (\<lambda>_. None)) = []"
    by blast
  from g have g1: "group_text m 1 = (case caps y 1 of None \<Rightarrow> [] | Some t \<Rightarrow> t)"
    by (simp add: group_text_def frac_rx_def)
  from ms_Grp_head [OF y [unfolded frac_rx_def]] obtain z zs where
    z: "ms frac_body (MState (if s1 = [] then None else Some (last s1)) s2 (\<lambda>_. None)) = z # zs"
    and c: "caps y 1 = Some (take (length s2 - length (rest z)) s2)"
    by auto
  from frac_body_head [OF z] obtain d1 w1 w2 d2 where
    f: "s2 = d1 @ w1 @ ''/'' @ w2 @ d2 @ rest z" and
    d: "digits_1_4 d1" "digits_1_4 d2" "list_all is_space w1" "list_all is_space w2"
       "rest z = [] \<or> \<not> is_digit (hd (rest z)) \<or> length d2 = 4"
    by auto
  let ?f = "d1 @ w1 @ ''/'' @ w2 @ d2"
  from f have "take (length s2 - length (rest z)) s2 = ?f" by simp
  with c g1 r have rr: "r = strip_ws ?f" by simp
  from d have sh: "fraction_shaped ?f" unfolding fraction_shaped_def by blast
  have "\<forall>pre' f' post'. text = pre' @ f' @ post' \<and> fraction_shaped f' \<longrightarrow>
      length s1 \<le> length pre' \<and> (length pre' = length s1 \<longrightarrow> length f' \<le> length ?f)"
  proof (intro allI impI)
    fix pre' f' post'
    assume a: "text = pre' @ f' @ post' \<and> fraction_shaped f'"
    have 1: "length s1 \<le> length pre'"
    proof (rule ccontr)
      assume "\<not> length s1 \<le> length pre'"
      with a l have "ms frac_rx (MState (if pre' = [] then None else Some (last pre'))
          (f' @ post') (\<lambda>_. None)) = []" by simp
      moreover from a frac_body_complete [of f' "if pre' = [] then None else Some (last pre')"
          post' "\<lambda>_. None"]
      have "ms frac_rx (MState (if pre' = [] then None else Some (last pre'))
          (f' @ post') (\<lambda>_. None)) \<noteq> []" by (simp add: frac_rx_def)
      ultimately show False by simp
    qed
    have 2: "length pre' = length s1 \<longrightarrow> length f' \<le> length ?f"
    proof
      assume "length pre' = length s1"
      with a t have "s2 = f' @ post'" by simp
      with f have "d1 @ w1 @ ''/'' @ w2 @ d2 @ rest z = f' @ post'" by simp
      from fraction_longest [OF d _ this] a show "length f' \<le> length ?f" by simp
    qed
    from 1 2 show "length s1 \<le> length pre' \<and>
        (length pre' = length s1 \<longrightarrow> length f' \<le> length ?f)" by simp
  qed
  moreover from t f have "text = s1 @ ?f @ rest z" by simp
  ultimately have "leftmost_longest fraction_shaped text ?f"
    unfolding leftmost_longest_def using sh by blast
  with rr show ?thesis by blast
qed

lemma extractCardNumberChunk_first_iff:
  "extractCardNumberChunk text = Some r \<longleftrightarrow>
     (\<exists>f. leftmost_longest fraction_shaped text f \<and> r = strip_ws f)"
proof
  assume "extractCardNumberChunk text = Some r"
  then show "\<exists>f. leftmost_longest fraction_shaped text f \<and> r = strip_ws f"
    by (rule extractCardNumberChunk_leftmost)
next
  assume "\<exists>f. leftmost_longest fraction_shaped text f \<and> r = strip_ws f"
  then obtain f where f: "leftmost_longest fraction_shaped text f" "r = strip_ws f" by blast
  from f(1) have "\<exists>pre f post. text = pre @ f @ post \<and> fraction_shaped f"
    unfolding leftmost_longest_def by blast
  then have "extractCardNumberChunk text \<noteq> None"
    by (simp add: extractCardNumberChunk_None_iff)
  then obtain r' where r': "extractCardNumberChunk text = Some r'" by auto
  from extractCardNumberChunk_leftmost [OF this] obtain f' where
    f': "leftmost_longest fraction_shaped text f'" "r' = strip_ws f'" by blast
  from leftmost_longest_unique [OF f(1) f'(1)] f f' r'
  show "extractCardNumberChunk text = Some r" by simp
qed

text \<open>
  C7.  The card-number extractor returns \<^verbatim>\<open>null\<close> exactly when the text holds no
  fraction-shaped token (one to four digits, a slash with optional white space around it,
  one to four digits).  Otherwise it returns the first such token of the text, its white
  space stripped: the token that starts leftmost and, of those that start there, the
  longest.  That result is one to four digits, a slash, one to four digits, with no white
  space; and the extractor, applied to its own result, returns that result.
\<close>

theorem extractCardNumberChunk_idempotent:
  "(extractCardNumberChunk text = None \<longleftrightarrow>
      \<not> (\<exists>pre f post. text = pre @ f @ post \<and> fraction_shaped f)) \<and>
   (\<forall>r. extractCardNumberChunk text = Some r \<longleftrightarrow>
      (\<exists>f. leftmost_longest fraction_shaped text f \<and> r = strip_ws f)) \<and>
   (\<forall>r. extractCardNumberChunk text = Some r \<longrightarrow>
      (\<exists>d1 d2. r = d1 @ ''/'' @ d2 \<and> digits_1_4 d1 \<and> digits_1_4 d2) \<and>
      extractCardNumberChunk r = Some r)"
proof -
  have "\<forall>r. extractCardNumberChunk text = Some r \<longrightarrow>
      (\<exists>d1 d2. r = d1 @ ''/'' @ d2 \<and> digits_1_4 d1 \<and> digits_1_4 d2) \<and>
      extractCardNumberChunk r = Some r"
    using extractCardNumberChunk_shape [of "text"] extractCardNumberChunk_fixed by metis
  with extractCardNumberChunk_None_iff [of "text"] extractCardNumberChunk_first_iff [of "text"]
  show ?thesis by blast
qed

theorem extractCardNumberChunk_idempotent_witness:
  "extractCardNumberChunk ''No. 12 / 34567 and 56/78'' = Some ''12/3456'' \<and>
   (\<exists>f. leftmost_longest fraction_shaped ''No. 12 / 34567 and 56/78'' f \<and>
        ''12/3456'' = strip_ws f) \<and>
   extractCardNumberChunk ''12/3456'' = Some ''12/3456'' \<and>
   extractCardNumberChunk ''215 / 203 extra text'' = Some ''215/203'' \<and>
   extractCardNumberChunk ''215/203'' = Some ''215/203'' \<and>
   extractCardNumberChunk ''page 7 of 9'' = None \<and>
   \<not> (\<exists>pre f post. ''page 7 of 9'' = pre @ f @ post \<and> fraction_shaped f)"
proof -
  have a: "extractCardNumberChunk ''No. 12 / 34567 and 56/78'' = Some ''12/3456''" by code_simp
  have b: "extractCardNumberChunk ''215 / 203 extra text'' = Some ''215/203''" by code_simp
  from extractCardNumberChunk_idempotent [of "''No. 12 / 34567 and 56/78''"] a
  have 1: "(\<exists>f. leftmost_longest fraction_shaped ''No. 12 / 34567 and 56/78'' f \<and>
        ''12/3456'' = strip_ws f) \<and> extractCardNumberChunk ''12/3456'' = Some ''12/3456''"
    by blast
  from extractCardNumberChunk_idempotent [of "''215 / 203 extra text''"] b
  have 2: "extractCardNumberChunk ''215/203'' = Some ''215/203''" by blast
  have c: "extractCardNumberChunk ''page 7 of 9'' = None" by code_simp
  with extractCardNumberChunk_idempotent [of "''page 7 of 9''"]
  have 3: "\<not> (\<exists>pre f post. ''page 7 of 9'' = pre @ f @ post \<and> fraction_shaped f)" by blast
  from a b c 1 2 3 show ?thesis by blast
qed

section \<open>The variant with tight heuristics\<close>

definition abra_el :: element where
  "abra_el =
     \<lparr>el_text = ''Abra  4 / 102 PSA 10 5 PSA 9 7 PSA8 3'', el_name = ''Abra'',
      el_details = ''Holo''\<rparr>"

definition abra_card :: card_record where
  "abra_card =
     \<lparr>name = ''Abra'', details = ''Holo'', cardNumber = Some ''4/102'', totalPop = None,
      grades = [(''PSA 10'', Finite 5), (''PSA 9'', Finite 7), (''PSA 8'', Finite 3)]\<rparr>"

lemma extractCardNumberChunk_Nil: "extractCardNumberChunk [] = None"
  by code_simp

lemma js_or_extractCardNumberChunk [simp]:
  "js_or (extractCardNumberChunk text) None = extractCardNumberChunk text"
proof (cases "extractCardNumberChunk text")
  case None
  then show ?thesis by (simp add: js_or_def)
next
  case (Some r)
  from extractCardNumberChunk_shape [OF this] have "r \<noteq> []" by auto
  with Some show ?thesis by (simp add: js_or_def)
qed

lemma block_of_strict_Some:
  assumes "block_of_strict el = Some b"
  shows "cardNumber b = extractCardNumberChunk (normalize_text (el_text el)) \<and>
         cardNumber b \<noteq> None \<and>
         3 \<le> distinct_grades (findGrades (normalize_text (el_text el))) \<and>
         grades b = extractGradesMap (normalize_text (el_text el)) \<and> grades b \<noteq> [] \<and>
         len b = length (normalize_text (el_text el))"
  using assms
  by (auto simp: block_of_strict_def Let_def split: if_splits option.splits)

lemma set_dedup_strict: "set (dedup_strict seen bs) \<subseteq> set bs"
  by (induction bs arbitrary: seen) (auto simp: Let_def)

lemma set_apply_limit: "set (apply_limit limit xs) \<subseteq> set xs"
  by (auto simp: apply_limit_def slice0_def split: option.splits dest: in_set_takeD)

lemma set_apply_name: "set (apply_name pokemonName xs) \<subseteq> set xs"
  by (auto simp: apply_name_def name_filter_def split: option.splits)

lemma set_apply_number_strict: "set (apply_number_strict cardNumberQ xs) \<subseteq> set xs"
  by (auto simp: apply_number_strict_def number_filter_strict_def split: option.splits)

lemma set_sort_by_len [simp]: "set (sort_by_len xs) = set xs"
  by (simp add: sort_by_len_def)

lemma cards_handler_strict:
  assumes "c \<in> set (cards (handler_strict candidates pokemonName cardNumberQ limit))"
  shows "\<exists>el \<in> set candidates. \<exists>b. block_of_strict el = Some b \<and> c = strip_len b"
proof -
  from assms obtain b where c: "c = strip_len b" and
    b: "b \<in> set (apply_limit limit (sort_by_len (apply_number_strict cardNumberQ
          (apply_name pokemonName (dedup_strict [] (List.map_filter block_of_strict candidates))))))"
    by (auto simp: handler_strict_def Let_def)
  from b have "b \<in> set (List.map_filter block_of_strict candidates)"
    using set_apply_limit set_apply_number_strict set_apply_name set_dedup_strict
    by (metis set_sort_by_len subsetD)
  then obtain el where "el \<in> set candidates" "block_of_strict el = Some b"
    by (auto simp: List.map_filter_def)
  with c show ?thesis by blast
qed

text \<open>
  C10.  In the variant with tight heuristics every record of the returned \<^verbatim>\<open>cards\<close> list
  comes from a block that passed the acceptance checks, with the length metric removed:
  its card number is present and is digits, a slash, digits, its grades mapping is not
  empty, and it is a \<open>card_record\<close>, the record of the five fields name, details,
  cardNumber, totalPop and grades.
\<close>

theorem strict_cards_invariant:
  assumes "c \<in> set (cards (handler_strict candidates pokemonName cardNumberQ limit))"
  shows "(\<exists>d1 d2. cardNumber c = Some (d1 @ ''/'' @ d2) \<and> digits_1_4 d1 \<and> digits_1_4 d2) \<and>
         grades c \<noteq> [] \<and>
         (\<exists>b. c = strip_len b \<and> c = \<lparr>name = name b, details = details b,
              cardNumber = cardNumber b, totalPop = totalPop b, grades = grades b\<rparr>)"
proof -
  from cards_handler_strict [OF assms] obtain el b where
    b: "block_of_strict el = Some b" and c: "c = strip_len b" by blast
  from block_of_strict_Some [OF b] have
    e: "cardNumber b = extractCardNumberChunk (normalize_text (el_text el))"
    and n: "cardNumber b \<noteq> None" and g: "grades b \<noteq> []" by blast+
  from n obtain r where "cardNumber b = Some r" by (cases "cardNumber b") simp_all
  with e have r: "extractCardNumberChunk (normalize_text (el_text el)) = Some r"
    "cardNumber b = Some r" by simp_all
  from extractCardNumberChunk_shape [OF r(1)] r(2) g c show ?thesis
    by (auto simp: strip_len_def)
qed

theorem strict_cards_invariant_witness:
  "cards (handler_strict [abra_el] None None None) = [abra_card] \<and>
   (\<exists>d1 d2. cardNumber abra_card = Some (d1 @ ''/'' @ d2) \<and> digits_1_4 d1 \<and> digits_1_4 d2) \<and>
   grades abra_card \<noteq> []"
proof -
  have a: "cards (handler_strict [abra_el] None None None) = [abra_card]"
    by code_simp
  then have "abra_card \<in> set (cards (handler_strict [abra_el] None None None))"
    by simp
  from strict_cards_invariant [OF this] a show ?thesis by simp
qed

section \<open>Acceptance of a block in the sweeping variants\<close>

definition bare_number_el :: element where
  \<comment> \<open>a block with a card number and no grade at all\<close>
  "bare_number_el = \<lparr>el_text = ''Pikachu 4/102'', el_name = ''Pikachu'', el_details = []\<rparr>"

definition no_number_el :: element where
  \<comment> \<open>a block with three grades and no card number\<close>
  "no_number_el = \<lparr>el_text = ''PSA 10 5 PSA 9 7 PSA 8 3'', el_name = ''Abra'', el_details = []\<rparr>"

definition unparsed_el :: element where
  \<comment> \<open>a block with a card number and three grade labels, none with a value that parses\<close>
  "unparsed_el = \<lparr>el_text = ''4/102 PSA 1 , PSA 2 , PSA 3 ,'', el_name = ''Abra'', el_details = []\<rparr>"




section \<open>Deduplication\<close>

definition blk_a :: block where
  "blk_a = \<lparr>name = ''Pikachu'', details = ''Common'', cardNumber = Some ''4/102'',
            totalPop = None, grades = [], len = 20\<rparr>"

definition blk_b :: block where
  "blk_b = \<lparr>name = ''PIKACHU'', details = ''Holo'', cardNumber = Some ''4/102'',
            totalPop = None, grades = [], len = 30\<rparr>"

definition blk_c :: block where
  "blk_c = \<lparr>name = [], details = [], cardNumber = None,
            totalPop = None, grades = [(''PSA 10'', Finite 5)], len = 8\<rparr>"

lemma enumerate_ge: "(i, b) \<in> set (enumerate n bs) \<Longrightarrow> n \<le> i"
  by (auto simp: in_set_enumerate_eq)

lemma dedup_sweep_gen:
  "dedup_sweep seen bs =
     map snd (filter (\<lambda>(i, b). key_sweep b = ''|'' \<or>
                 key_sweep b \<notin> set seen \<union> key_sweep ` set (take (i - n) bs))
               (enumerate n bs))"
proof (induction bs arbitrary: seen n)
  case Nil
  show ?case by simp
next
  case (Cons b bs)
  have tail: "filter (\<lambda>(i, b'). key_sweep b' = ''|'' \<or>
          key_sweep b' \<notin> set seen \<union> key_sweep ` set (take (i - n) (b # bs)))
        (enumerate (Suc n) bs) =
      filter (\<lambda>(i, b'). key_sweep b' = ''|'' \<or>
          key_sweep b' \<notin> set (key_sweep b # seen) \<union> key_sweep ` set (take (i - Suc n) bs))
        (enumerate (Suc n) bs)"
  proof (rule filter_cong [OF refl], clarify)
    fix i b'
    assume "(i, b') \<in> set (enumerate (Suc n) bs)"
    then have "Suc n \<le> i" by (rule enumerate_ge)
    then have "i - n = Suc (i - Suc n)" by simp
    then have "take (i - n) (b # bs) = b # take (i - Suc n) bs" by simp
    then show "(key_sweep b' = ''|'' \<or>
          key_sweep b' \<notin> set seen \<union> key_sweep ` set (take (i - n) (b # bs))) =
        (key_sweep b' = ''|'' \<or>
          key_sweep b' \<notin> set (key_sweep b # seen) \<union> key_sweep ` set (take (i - Suc n) bs))"
      by auto
  qed
  show ?case
  proof (cases "key_sweep b \<in> set seen \<and> key_sweep b \<noteq> ''|''")
    case True
    then have "set (key_sweep b # seen) = set seen" by auto
    with True show ?thesis
      using Cons.IH [of seen "Suc n"] tail by (auto simp: Let_def)
  next
    case False
    then show ?thesis
      using Cons.IH [of "key_sweep b # seen" "Suc n"] tail by (auto simp: Let_def)
  qed
qed

lemma dedup_strict_gen:
  "dedup_strict seen bs =
     map snd (filter (\<lambda>(i, b). key_strict b \<notin> set seen \<union> key_strict ` set (take (i - n) bs))
               (enumerate n bs))"
proof (induction bs arbitrary: seen n)
  case Nil
  show ?case by simp
next
  case (Cons b bs)
  have tail: "filter (\<lambda>(i, b').
          key_strict b' \<notin> set seen \<union> key_strict ` set (take (i - n) (b # bs)))
        (enumerate (Suc n) bs) =
      filter (\<lambda>(i, b').
          key_strict b' \<notin> set (key_strict b # seen) \<union> key_strict ` set (take (i - Suc n) bs))
        (enumerate (Suc n) bs)"
  proof (rule filter_cong [OF refl], clarify)
    fix i b'
    assume "(i, b') \<in> set (enumerate (Suc n) bs)"
    then have "Suc n \<le> i" by (rule enumerate_ge)
    then have "i - n = Suc (i - Suc n)" by simp
    then have "take (i - n) (b # bs) = b # take (i - Suc n) bs" by simp
    then show "(key_strict b' \<notin> set seen \<union> key_strict ` set (take (i - n) (b # bs))) =
        (key_strict b' \<notin> set (key_strict b # seen) \<union> key_strict ` set (take (i - Suc n) bs))"
      by auto
  qed
  show ?case
  proof (cases "key_strict b \<in> set seen")
    case True
    then have "set (key_strict b # seen) = set seen" by auto
    with True show ?thesis
      using Cons.IH [of seen "Suc n"] tail by (auto simp: Let_def)
  next
    case False
    then show ?thesis
      using Cons.IH [of "key_strict b # seen" "Suc n"] tail by (auto simp: Let_def)
  qed
qed

lemma key_sweep_bar_iff:
  "key_sweep b = ''|'' \<longleftrightarrow> name b = [] \<and> (cardNumber b = None \<or> cardNumber b = Some [])"
proof
  assume k: "key_sweep b = ''|''"
  then have "length (toLowerCase (name b)) +
      length (case cardNumber b of None \<Rightarrow> [] | Some n \<Rightarrow> n) = 0"
    unfolding key_sweep_def by (metis One_nat_def add_Suc_right length_append length_Cons
        list.size(3) add_diff_cancel_right' plus_1_eq_Suc add.commute)
  then show "name b = [] \<and> (cardNumber b = None \<or> cardNumber b = Some [])"
    by (cases "cardNumber b") (simp_all add: toLowerCase_def)
next
  assume "name b = [] \<and> (cardNumber b = None \<or> cardNumber b = Some [])"
  then show "key_sweep b = ''|''" by (auto simp: key_sweep_def toLowerCase_def)
qed

subsection \<open>The identity of a record\<close>

text \<open>What deduplication is to tell apart, in the words of the specification: two records
  are the same card when their names agree up to case and their card numbers agree.\<close>

definition same_identity :: "block \<Rightarrow> block \<Rightarrow> bool" where
  "same_identity a b \<longleftrightarrow>
     toLowerCase (name a) = toLowerCase (name b) \<and> cardNumber a = cardNumber b"

definition no_identity :: "block \<Rightarrow> bool" where
  \<comment> \<open>neither a name nor a card number\<close>
  "no_identity b \<longleftrightarrow> name b = [] \<and> cardNumber b = None"

definition number_ok :: "block \<Rightarrow> bool" where
  \<comment> \<open>a card number, where there is one, is not empty and holds no bar\<close>
  "number_ok b \<longleftrightarrow>
     (case cardNumber b of None \<Rightarrow> True | Some n \<Rightarrow> n \<noteq> [] \<and> CHR ''|'' \<notin> set n)"

definition blk_d :: block where
  "blk_d = \<lparr>name = ''Raichu'', details = ''Rare'', cardNumber = Some ''4/102'',
            totalPop = None, grades = [], len = 25\<rparr>"

definition blk_e :: block where
  "blk_e = \<lparr>name = ''pikachu'', details = ''Promo'', cardNumber = Some ''5/102'',
            totalPop = None, grades = [], len = 12\<rparr>"

text \<open>The key of a record is its lower-cased name, a bar, and its card number.  The card
  number holds no bar, so the key ends at the last bar with the number, and two keys
  are equal exactly when both parts are.\<close>

lemma key_split:
  assumes "n1 @ ''|'' @ c1 = n2 @ ''|'' @ c2" "CHR ''|'' \<notin> set c1" "CHR ''|'' \<notin> set c2"
  shows "n1 = n2 \<and> c1 = c2"
proof -
  from assms(1) have "rev (n1 @ ''|'' @ c1) = rev (n2 @ ''|'' @ c2)" by simp
  then have e: "rev c1 @ (CHR ''|'' # rev n1) = rev c2 @ (CHR ''|'' # rev n2)" by simp
  from assms(2,3) have "list_all (\<lambda>c. c \<noteq> CHR ''|'') (rev c1)"
    "list_all (\<lambda>c. c \<noteq> CHR ''|'') (rev c2)"
    by (auto simp: list_all_iff)
  from run_unique [OF e this] have "rev c1 = rev c2 \<and> rev n1 = rev n2" by simp
  then show ?thesis by simp
qed

lemma key_sweep_eq:
  assumes "number_ok a" "number_ok b"
  shows "key_sweep a = key_sweep b \<longleftrightarrow> same_identity a b"
proof
  assume k: "key_sweep a = key_sweep b"
  let ?c = "\<lambda>x :: block. case cardNumber x of None \<Rightarrow> [] | Some n \<Rightarrow> n"
  from assms have nb: "CHR ''|'' \<notin> set (?c a)" "CHR ''|'' \<notin> set (?c b)"
    by (auto simp: number_ok_def split: option.splits)
  from k have "toLowerCase (name a) @ ''|'' @ ?c a = toLowerCase (name b) @ ''|'' @ ?c b"
    by (simp add: key_sweep_def)
  from key_split [OF this nb] have e: "toLowerCase (name a) = toLowerCase (name b)" "?c a = ?c b"
    by simp_all
  from e(2) assms have "cardNumber a = cardNumber b"
    by (auto simp: number_ok_def split: option.splits)
  with e(1) show "same_identity a b" by (simp add: same_identity_def)
next
  assume "same_identity a b"
  then show "key_sweep a = key_sweep b" by (simp add: same_identity_def key_sweep_def)
qed

lemma key_strict_eq:
  assumes "number_ok a" "cardNumber a \<noteq> None" "number_ok b" "cardNumber b \<noteq> None"
  shows "key_strict a = key_strict b \<longleftrightarrow> same_identity a b"
proof
  assume k: "key_strict a = key_strict b"
  from assms obtain m n where mn: "cardNumber a = Some m" "cardNumber b = Some n"
    "CHR ''|'' \<notin> set m" "CHR ''|'' \<notin> set n"
    by (auto simp: number_ok_def split: option.splits)
  with k have "toLowerCase (name a) @ ''|'' @ m = toLowerCase (name b) @ ''|'' @ n"
    by (simp add: key_strict_def)
  from key_split [OF this mn(3,4)] mn(1,2) show "same_identity a b"
    by (simp add: same_identity_def)
next
  assume "same_identity a b"
  then show "key_strict a = key_strict b" by (simp add: same_identity_def key_strict_def)
qed

lemma key_sweep_bar: "number_ok b \<Longrightarrow> key_sweep b = ''|'' \<longleftrightarrow> no_identity b"
  by (auto simp: key_sweep_bar_iff number_ok_def no_identity_def)

lemma dedup_sweep_identity:
  assumes "\<forall>b \<in> set bs. number_ok b"
  shows "dedup_sweep [] bs =
     map snd (filter (\<lambda>(i, b). no_identity b \<or> \<not> (\<exists>a \<in> set (take i bs). same_identity a b))
               (enumerate 0 bs))"
proof -
  have "filter (\<lambda>(i, b). key_sweep b = ''|'' \<or>
            key_sweep b \<notin> set [] \<union> key_sweep ` set (take (i - 0) bs)) (enumerate 0 bs) =
        filter (\<lambda>(i, b). no_identity b \<or> \<not> (\<exists>a \<in> set (take i bs). same_identity a b))
          (enumerate 0 bs)"
  proof (rule filter_cong [OF refl], clarify)
    fix i b
    assume "(i, b) \<in> set (enumerate 0 bs)"
    then have "b \<in> set bs" by (auto simp: in_set_enumerate_eq)
    with assms have b: "number_ok b" by blast
    have "\<And>a. a \<in> set (take i bs) \<Longrightarrow> (key_sweep a = key_sweep b) = same_identity a b"
    proof -
      fix a
      assume "a \<in> set (take i bs)"
      then have "a \<in> set bs" by (rule in_set_takeD)
      with assms have "number_ok a" by blast
      from key_sweep_eq [OF this b] show "(key_sweep a = key_sweep b) = same_identity a b" .
    qed
    then have "key_sweep b \<in> key_sweep ` set (take i bs) \<longleftrightarrow>
        (\<exists>a \<in> set (take i bs). same_identity a b)"
      by (metis (no_types, lifting) image_iff)
    with key_sweep_bar [OF b]
    show "(key_sweep b = ''|'' \<or>
          key_sweep b \<notin> set [] \<union> key_sweep ` set (take (i - 0) bs)) =
        (no_identity b \<or> \<not> (\<exists>a \<in> set (take i bs). same_identity a b))"
      by simp
  qed
  with dedup_sweep_gen [of "[]" bs 0] show ?thesis by simp
qed

lemma dedup_strict_identity:
  assumes "\<forall>b \<in> set bs. number_ok b \<and> cardNumber b \<noteq> None"
  shows "dedup_strict [] bs =
     map snd (filter (\<lambda>(i, b). \<not> (\<exists>a \<in> set (take i bs). same_identity a b)) (enumerate 0 bs))"
proof -
  have "filter (\<lambda>(i, b). key_strict b \<notin> set [] \<union> key_strict ` set (take (i - 0) bs))
          (enumerate 0 bs) =
        filter (\<lambda>(i, b). \<not> (\<exists>a \<in> set (take i bs). same_identity a b)) (enumerate 0 bs)"
  proof (rule filter_cong [OF refl], clarify)
    fix i b
    assume "(i, b) \<in> set (enumerate 0 bs)"
    then have "b \<in> set bs" by (auto simp: in_set_enumerate_eq)
    with assms have b: "number_ok b" "cardNumber b \<noteq> None" by blast+
    have "\<And>a. a \<in> set (take i bs) \<Longrightarrow> (key_strict a = key_strict b) = same_identity a b"
    proof -
      fix a
      assume "a \<in> set (take i bs)"
      then have "a \<in> set bs" by (rule in_set_takeD)
      with assms have "number_ok a" "cardNumber a \<noteq> None" by blast+
      from key_strict_eq [OF this b] show "(key_strict a = key_strict b) = same_identity a b" .
    qed
    then have "key_strict b \<in> key_strict ` set (take i bs) \<longleftrightarrow>
        (\<exists>a \<in> set (take i bs). same_identity a b)"
      by (metis (no_types, lifting) image_iff)
    then show "(key_strict b \<notin> set [] \<union> key_strict ` set (take (i - 0) bs)) =
        (\<not> (\<exists>a \<in> set (take i bs). same_identity a b))"
      by simp
  qed
  with dedup_strict_gen [of "[]" bs 0] show ?thesis by simp
qed

text \<open>The card numbers of the blocks are what the card-number extractor returned: digits
  and a slash.\<close>

lemma fraction_number_ok:
  assumes "extractCardNumberChunk text = Some r"
  shows "r \<noteq> [] \<and> CHR ''|'' \<notin> set r"
proof -
  from extractCardNumberChunk_shape [OF assms] obtain d1 d2 where
    r: "r = d1 @ ''/'' @ d2" "digits_1_4 d1" "digits_1_4 d2" by blast
  have "\<And>c. is_digit c \<Longrightarrow> c \<noteq> CHR ''|''" by (auto simp: is_digit_def)
  with r(2,3) have "CHR ''|'' \<notin> set d1" "CHR ''|'' \<notin> set d2"
    by (auto simp: digits_1_4_def list_all_iff)
  with r(1) show ?thesis by simp
qed

lemma block_of_sweep_number_ok:
  assumes "block_of_sweep el = Some b"
  shows "number_ok b"
proof -
  from assms have e: "cardNumber b = extractCardNumberChunk (normalize_text (el_text el))"
    by (auto simp: block_of_sweep_def Let_def split: if_splits)
  show ?thesis
  proof (cases "cardNumber b")
    case None
    then show ?thesis by (simp add: number_ok_def)
  next
    case (Some r)
    with e have "extractCardNumberChunk (normalize_text (el_text el)) = Some r" by simp
    from fraction_number_ok [OF this] Some show ?thesis by (simp add: number_ok_def)
  qed
qed

lemma block_of_strict_number_ok:
  assumes "block_of_strict el = Some b"
  shows "number_ok b \<and> cardNumber b \<noteq> None"
proof -
  from block_of_strict_Some [OF assms] have
    e: "cardNumber b = extractCardNumberChunk (normalize_text (el_text el))" and
    n: "cardNumber b \<noteq> None"
    by blast+
  from n obtain r where r: "cardNumber b = Some r" by (cases "cardNumber b") simp_all
  with e have "extractCardNumberChunk (normalize_text (el_text el)) = Some r" by simp
  from fraction_number_ok [OF this] r show ?thesis by (simp add: number_ok_def)
qed

text \<open>
  C3.  Deduplication keeps a record exactly when no record before it in the list is the
  same card (the same name up to case and the same card number), and it keeps the records
  in their order.  In the variant with text heuristics a record with neither a name nor
  a card number is kept whatever came before it.  The variant with tight heuristics has
  no such exception in its loop and needs none: each of its records has a card number.
  This holds of every list whose card numbers are not empty and hold no bar, the
  separator of the key; the lists the two variants deduplicate are such lists.
\<close>

theorem dedup_first_per_key:
  "((\<forall>b \<in> set bs. number_ok b) \<longrightarrow>
      dedup_sweep [] bs =
        map snd (filter (\<lambda>(i, b). no_identity b \<or>
                     \<not> (\<exists>a \<in> set (take i bs). same_identity a b)) (enumerate 0 bs))) \<and>
   ((\<forall>b \<in> set bs. number_ok b \<and> cardNumber b \<noteq> None) \<longrightarrow>
      dedup_strict [] bs =
        map snd (filter (\<lambda>(i, b). \<not> (\<exists>a \<in> set (take i bs). same_identity a b))
                   (enumerate 0 bs))) \<and>
   (\<forall>b \<in> set (List.map_filter block_of_sweep els). number_ok b) \<and>
   (\<forall>b \<in> set (List.map_filter block_of_strict els). number_ok b \<and> cardNumber b \<noteq> None)"
proof -
  have 3: "\<forall>b \<in> set (List.map_filter block_of_sweep els). number_ok b"
    using block_of_sweep_number_ok by (auto simp: List.map_filter_def)
  have 4: "\<forall>b \<in> set (List.map_filter block_of_strict els). number_ok b \<and> cardNumber b \<noteq> None"
    using block_of_strict_number_ok by (auto simp: List.map_filter_def)
  from dedup_sweep_identity [of bs] dedup_strict_identity [of bs] 3 4 show ?thesis by blast
qed

theorem dedup_first_per_key_witness:
  "dedup_sweep [] [blk_a, blk_c, blk_b, blk_d, blk_c, blk_e, blk_d] =
     [blk_a, blk_c, blk_d, blk_c, blk_e] \<and>
   dedup_strict [] [blk_a, blk_b, blk_d, blk_a, blk_e, blk_e] = [blk_a, blk_d, blk_e] \<and>
   list_all number_ok (List.map_filter block_of_sweep [bare_number_el, abra_el]) \<and>
   List.map_filter block_of_sweep [bare_number_el, abra_el] \<noteq> [] \<and>
   list_all (\<lambda>b. number_ok b \<and> cardNumber b \<noteq> None) (List.map_filter block_of_strict [abra_el]) \<and>
   List.map_filter block_of_strict [abra_el] \<noteq> []"
proof -
  let ?s = "[blk_a, blk_c, blk_b, blk_d, blk_c, blk_e, blk_d]"
  let ?t = "[blk_a, blk_b, blk_d, blk_a, blk_e, blk_e]"
  have h1: "\<forall>b \<in> set ?s. number_ok b" by code_simp
  have h2: "\<forall>b \<in> set ?t. number_ok b \<and> cardNumber b \<noteq> None" by code_simp
  have r1: "map snd (filter (\<lambda>(i, b). no_identity b \<or>
        \<not> (\<exists>a \<in> set (take i ?s). same_identity a b)) (enumerate 0 ?s)) =
      [blk_a, blk_c, blk_d, blk_c, blk_e]" by code_simp
  have r2: "map snd (filter (\<lambda>(i, b). \<not> (\<exists>a \<in> set (take i ?t). same_identity a b))
        (enumerate 0 ?t)) = [blk_a, blk_d, blk_e]" by code_simp
  have n1: "List.map_filter block_of_sweep [bare_number_el, abra_el] \<noteq> []" by code_simp
  have n2: "List.map_filter block_of_strict [abra_el] \<noteq> []" by code_simp
  from dedup_first_per_key [of ?s "[bare_number_el, abra_el]"] h1
  have e1: "dedup_sweep [] ?s = [blk_a, blk_c, blk_d, blk_c, blk_e]"
    and e3: "list_all number_ok (List.map_filter block_of_sweep [bare_number_el, abra_el])"
    unfolding r1 list_all_iff by blast+
  from dedup_first_per_key [of ?t "[abra_el]"] h2
  have e2: "dedup_strict [] ?t = [blk_a, blk_d, blk_e]"
    and e4: "list_all (\<lambda>b. number_ok b \<and> cardNumber b \<noteq> None)
        (List.map_filter block_of_strict [abra_el])"
    unfolding r2 list_all_iff by blast+
  from e1 e2 e3 e4 n1 n2 show ?thesis by blast
qed

section \<open>The total-population extractors\<close>

definition is_word_ci :: "string \<Rightarrow> string \<Rightarrow> bool" where
  \<comment> \<open>\<open>s\<close> is the word, in any mix of upper and lower case\<close>
  "is_word_ci word s \<longleftrightarrow> map upper_char s = map upper_char word"

definition population_phrase :: "string \<Rightarrow> string \<Rightarrow> bool" where
  \<comment> \<open>the word Population, optional white space, and a number of digits and commas\<close>
  "population_phrase num f \<longleftrightarrow>
     (\<exists>P w. f = P @ w @ num \<and> is_word_ci ''Population'' P \<and> list_all is_space w \<and>
        num \<noteq> [] \<and> list_all is_num_char num)"

definition total_population_phrase :: "string \<Rightarrow> string \<Rightarrow> bool" where
  \<comment> \<open>the word Total, optional white space, and a population phrase\<close>
  "total_population_phrase num f \<longleftrightarrow>
     (\<exists>T w g. f = T @ w @ g \<and> is_word_ci ''Total'' T \<and> list_all is_space w \<and>
        population_phrase num g)"

definition sweep_phrase :: "string \<Rightarrow> string \<Rightarrow> bool" where
  \<comment> \<open>a population phrase, with or without the word Total before it\<close>
  "sweep_phrase num f \<longleftrightarrow> population_phrase num f \<or> total_population_phrase num f"

definition first_phrase :: "(string \<Rightarrow> string \<Rightarrow> bool) \<Rightarrow> string \<Rightarrow> string \<Rightarrow> bool" where
  \<comment> \<open>\<open>num\<close> is the number of the first phrase of the text: of the phrase that starts
      leftmost and, of those that start there, is the longest\<close>
  "first_phrase phrase t num \<longleftrightarrow>
     (\<exists>f. leftmost_longest (\<lambda>f. \<exists>n. phrase n f) t f \<and> phrase num f)"

lemma groups_ChrI [simp]: "groups (ChrI c) = []"
  by (simp add: ChrI_def)

lemma groups_Lit_ChrI [simp]: "groups (Lit ChrI s) = []"
  by (induction s) simp_all

lemma ms_Lit_sound:
  "y \<in> set (ms (Lit ChrI s) x) \<Longrightarrow>
   \<exists>w. rest x = w @ rest y \<and> is_word_ci s w \<and> caps y = caps x"
proof (induction s arbitrary: x)
  case Nil
  then show ?case by (simp add: is_word_ci_def)
next
  case (Cons c s)
  from Cons.prems obtain z where
    z: "z \<in> set (ms (Cls (\<lambda>x. upper_char x = upper_char c)) x)" and
    y: "y \<in> set (ms (Lit ChrI s) z)"
    unfolding Lit.simps ms_Seq_iff ChrI_def by blast
  from z have zz: "rest x \<noteq> []" "upper_char (hd (rest x)) = upper_char c"
    "rest z = tl (rest x)" "caps z = caps x"
    by (simp_all add: ms_Cls_iff del: ms_Cls)
  from Cons.IH [OF y] obtain w where
    w: "rest z = w @ rest y" "is_word_ci s w" "caps y = caps z" by blast
  let ?w = "hd (rest x) # w"
  from zz w have "rest x = ?w @ rest y" by (cases "rest x") simp_all
  moreover from zz w have "is_word_ci (c # s) ?w" by (simp add: is_word_ci_def)
  moreover from zz w have "caps y = caps x" by simp
  ultimately show ?case by blast
qed

lemma white_space_sound:
  assumes "y \<in> set (ms (Star ws_rx) x)"
  shows "\<exists>w. rest x = w @ rest y \<and> list_all is_space w \<and> caps y = caps x"
proof -
  from assms have "y \<in> set (rep_ms (ms (Cls is_space)) [] 0 None x)"
    by (simp add: Star_def ws_rx_def)
  from rep_Cls_sound [OF this] show ?thesis by auto
qed

subsection \<open>Phrases as strings\<close>

lemma not_space_num_char: "is_num_char c \<Longrightarrow> \<not> is_space c"
proof -
  have "\<not> is_space CHR '',''" by code_simp
  then show "is_num_char c \<Longrightarrow> \<not> is_space c"
    unfolding is_num_char_def using not_space_digit by blast
qed

lemma upper_char_space: "is_space c \<Longrightarrow> upper_char c = c"
  unfolding is_space_def upper_char_def Let_def by auto

lemma is_word_ci_length: "is_word_ci w P \<Longrightarrow> length P = length w"
  unfolding is_word_ci_def by (metis length_map)

lemma is_word_ci_hd: "is_word_ci (c # w) P \<Longrightarrow> P \<noteq> [] \<and> upper_char (hd P) = upper_char c"
  by (cases P) (auto simp: is_word_ci_def)

lemma population_hd:
  assumes "population_phrase num f"
  shows "f \<noteq> [] \<and> upper_char (hd f) = CHR ''P'' \<and> \<not> is_space (hd f)"
proof -
  from assms obtain P w where f: "f = P @ w @ num" and P: "is_word_ci ''Population'' P"
    unfolding population_phrase_def by blast
  have u: "upper_char CHR ''P'' = CHR ''P''" by code_simp
  have s: "\<not> is_space CHR ''P''" by code_simp
  from is_word_ci_hd [OF P] u have h: "P \<noteq> []" "upper_char (hd P) = CHR ''P''" by simp_all
  with s have "\<not> is_space (hd P)" using upper_char_space [of "hd P"] by auto
  with h f show ?thesis by simp
qed

lemma total_hd:
  assumes "total_population_phrase num f"
  shows "f \<noteq> [] \<and> upper_char (hd f) = CHR ''T''"
proof -
  from assms obtain T w g where f: "f = T @ w @ g" and T: "is_word_ci ''Total'' T"
    unfolding total_population_phrase_def by blast
  have u: "upper_char CHR ''T'' = CHR ''T''" by code_simp
  from is_word_ci_hd [OF T] u have "T \<noteq> []" "upper_char (hd T) = CHR ''T''" by simp_all
  with f show ?thesis by simp
qed

lemma population_num:
  "population_phrase num f \<Longrightarrow> num \<noteq> [] \<and> list_all is_num_char num"
  unfolding population_phrase_def by blast

lemma sweep_num:
  "sweep_phrase num f \<Longrightarrow> num \<noteq> [] \<and> list_all is_num_char num"
  unfolding sweep_phrase_def total_population_phrase_def using population_num by blast

text \<open>Two phrases that start the same text differ in the length of their number only.\<close>

lemma population_align:
  assumes "population_phrase num f" "population_phrase n' g" "f @ t = g @ u"
  shows "\<exists>h. f = h @ num \<and> g = h @ n' \<and> num @ t = n' @ u"
proof -
  from assms(1) obtain P w where f: "f = P @ w @ num" and
    P: "is_word_ci ''Population'' P" "list_all is_space w" "num \<noteq> []" "list_all is_num_char num"
    unfolding population_phrase_def by blast
  from assms(2) obtain P' w' where g: "g = P' @ w' @ n'" and
    P': "is_word_ci ''Population'' P'" "list_all is_space w'" "n' \<noteq> []" "list_all is_num_char n'"
    unfolding population_phrase_def by blast
  from P(1) P'(1) have "length P = length P'" by (simp add: is_word_ci_length)
  with assms(3) f g have 1: "P = P'" "w @ (num @ t) = w' @ (n' @ u)" by simp_all
  from P(3,4) have "\<not> is_space (hd (num @ t))"
    by (cases num) (auto dest: not_space_num_char)
  moreover from P'(3,4) have "\<not> is_space (hd (n' @ u))"
    by (cases n') (auto dest: not_space_num_char)
  ultimately have "w = w' \<and> num @ t = n' @ u"
    using run_unique [OF 1(2) P(2) P'(2)] by simp
  with 1 f g show ?thesis by auto
qed

lemma total_align:
  assumes "total_population_phrase num f" "total_population_phrase n' g" "f @ t = g @ u"
  shows "\<exists>h. f = h @ num \<and> g = h @ n' \<and> num @ t = n' @ u"
proof -
  from assms(1) obtain T w p where f: "f = T @ w @ p" and
    T: "is_word_ci ''Total'' T" "list_all is_space w" "population_phrase num p"
    unfolding total_population_phrase_def by blast
  from assms(2) obtain T' w' p' where g: "g = T' @ w' @ p'" and
    T': "is_word_ci ''Total'' T'" "list_all is_space w'" "population_phrase n' p'"
    unfolding total_population_phrase_def by blast
  from T(1) T'(1) have "length T = length T'" by (simp add: is_word_ci_length)
  with assms(3) f g have 1: "T = T'" "w @ (p @ t) = w' @ (p' @ u)" by simp_all
  from population_hd [OF T(3)] have "\<not> is_space (hd (p @ t))" by simp
  moreover from population_hd [OF T'(3)] have "\<not> is_space (hd (p' @ u))" by simp
  ultimately have 2: "w = w'" "p @ t = p' @ u"
    using run_unique [OF 1(2) T(2) T'(2)] by simp_all
  from population_align [OF T(3) T'(3) 2(2)] obtain h where
    "p = h @ num" "p' = h @ n'" "num @ t = n' @ u" by blast
  with 1 2 f g have "f = (T @ w @ h) @ num \<and> g = (T @ w @ h) @ n' \<and> num @ t = n' @ u" by simp
  then show ?thesis by blast
qed

lemma sweep_align:
  assumes "sweep_phrase num f" "sweep_phrase n' g" "f @ t = g @ u"
  shows "\<exists>h. f = h @ num \<and> g = h @ n' \<and> num @ t = n' @ u"
proof -
  have d: "upper_char CHR ''P'' \<noteq> upper_char CHR ''T''" by code_simp
  have u: "upper_char CHR ''P'' = CHR ''P''" "upper_char CHR ''T'' = CHR ''T''" by code_simp+
  have x: "\<And>a b n m. population_phrase n a \<Longrightarrow> total_population_phrase m b \<Longrightarrow>
      hd a \<noteq> hd b"
    using population_hd total_hd d u by metis
  from assms(1,2) consider
      (pp) "population_phrase num f" "population_phrase n' g"
    | (tt) "total_population_phrase num f" "total_population_phrase n' g"
    | (pt) "population_phrase num f" "total_population_phrase n' g"
    | (tp) "total_population_phrase num f" "population_phrase n' g"
    unfolding sweep_phrase_def by blast
  then show ?thesis
  proof cases
    case pp
    from population_align [OF pp assms(3)] show ?thesis .
  next
    case tt
    from total_align [OF tt assms(3)] show ?thesis .
  next
    case pt
    from population_hd [OF pt(1)] total_hd [OF pt(2)] assms(3) have "hd f = hd g"
      by (cases f; cases g) auto
    with x [OF pt] show ?thesis by simp
  next
    case tp
    from population_hd [OF tp(2)] total_hd [OF tp(1)] assms(3) have "hd g = hd f"
      by (cases f; cases g) auto
    with x [OF tp(2) tp(1)] show ?thesis by simp
  qed
qed

lemma aligned_longest:
  assumes "f = h @ num" "g = h @ n'" "num @ t = n' @ u"
    "list_all is_num_char num" "list_all is_num_char n'" "t = [] \<or> \<not> is_num_char (hd t)"
  shows "length g \<le> length f"
proof -
  from assms(6) have "t = [] \<or> \<not> is_num_char (hd t) \<or> length num = Suc (length n' + length num)"
    by blast
  from run_longest [OF assms(3,4,5) this] assms(1,2) show ?thesis by simp
qed

subsection \<open>Phrases as the matcher sees them\<close>

lemma in_set_not_Nil: "y \<in> set xs \<Longrightarrow> xs \<noteq> []"
  by auto

lemma ms_Lit_complete:
  "is_word_ci s P \<Longrightarrow> \<exists>pv'. ms (Lit ChrI s) (MState pv (P @ t) c) = [MState pv' t c]"
proof (induction s arbitrary: P pv)
  case Nil
  then show ?case by (simp add: is_word_ci_def)
next
  case (Cons a s)
  from Cons.prems obtain b P' where P: "P = b # P'" "upper_char b = upper_char a"
    "is_word_ci s P'"
    by (cases P) (auto simp: is_word_ci_def)
  from Cons.IH [OF P(3), of "Some b"] obtain pv' where
    i: "ms (Lit ChrI s) (MState (Some b) (P' @ t) c) = [MState pv' t c]" by blast
  from P have "ms (ChrI a) (MState pv (P @ t) c) = [MState (Some b) (P' @ t) c]"
    by (simp add: ChrI_def)
  with i show ?case by simp
qed

lemma white_space_complete:
  "list_all is_space w \<Longrightarrow> \<exists>pv'. MState pv' t c \<in> set (ms (Star ws_rx) (MState pv (w @ t) c))"
  using rep_Cls_complete [of is_space w 0 None t c pv] by (simp add: Star_def ws_rx_def)

lemma population_tail_complete:
  assumes "population_phrase num f"
  shows "ms (Seq (Lit ChrI ''Population'')
      (Seq (Star ws_rx) (Grp n (Plus (Cls is_num_char))))) (MState pv (f @ t) c) \<noteq> []"
proof -
  from assms obtain P w where f: "f = P @ w @ num" and
    P: "is_word_ci ''Population'' P" "list_all is_space w" "num \<noteq> []" "list_all is_num_char num"
    unfolding population_phrase_def by blast
  from ms_Lit_complete [OF P(1), of pv "w @ num @ t" c] obtain p1 where
    "ms (Lit ChrI ''Population'') (MState pv (P @ w @ num @ t) c) = [MState p1 (w @ num @ t) c]"
    by blast
  then have
    1: "MState p1 (w @ num @ t) c \<in> set (ms (Lit ChrI ''Population'') (MState pv (f @ t) c))"
    unfolding f by (simp del: Lit.simps)
  from white_space_complete [OF P(2), of "num @ t" c p1] obtain p2 where
    2: "MState p2 (num @ t) c \<in> set (ms (Star ws_rx) (MState p1 (w @ num @ t) c))" by blast
  from P(3) have "1 \<le> length num" by (cases num) simp_all
  from rep_Cls_complete [OF P(4) this, of None t c p2] obtain p3 where
    "MState p3 t c \<in> set (rep_ms (ms (Cls is_num_char)) [] 1 None (MState p2 (num @ t) c))"
    by auto
  then have "ms (Grp n (Plus (Cls is_num_char))) (MState p2 (num @ t) c) \<noteq> []"
    by (auto simp: Plus_def)
  then obtain y where
    3: "y \<in> set (ms (Grp n (Plus (Cls is_num_char))) (MState p2 (num @ t) c))"
    by (metis list.set_intros(1) neq_Nil_conv)
  from 1 2 3 have "y \<in> set (ms (Seq (Lit ChrI ''Population'')
      (Seq (Star ws_rx) (Grp n (Plus (Cls is_num_char))))) (MState pv (f @ t) c))"
    unfolding ms_Seq_iff by blast
  then show ?thesis by (rule in_set_not_Nil)
qed

lemma population_tail_head:
  assumes "ms (Seq (Lit ChrI ''Population'')
      (Seq (Star ws_rx) (Grp n (Plus (Cls is_num_char))))) x = y # ys"
  shows "\<exists>f num. rest x = f @ rest y \<and> population_phrase num f \<and> caps y n = Some num \<and>
           (rest y = [] \<or> \<not> is_num_char (hd (rest y)))"
proof -
  from ms_Seq_head [OF assms] obtain z1 ys1 where
    z1: "z1 \<in> set (ms (Lit ChrI ''Population'') x)" and
    t1: "ms (Seq (Star ws_rx) (Grp n (Plus (Cls is_num_char)))) z1 = y # ys1" by blast
  from ms_Seq_head [OF t1] obtain z2 ys2 where
    z2: "z2 \<in> set (ms (Star ws_rx) z1)" and
    t2: "ms (Grp n (Plus (Cls is_num_char))) z2 = y # ys2" by blast
  from ms_Grp_head [OF t2] obtain z zs where
    z: "rep_ms (ms (Cls is_num_char)) [] 1 None z2 = z # zs" and
    y: "y = MState (prev z) (rest z)
          ((caps z)(n := Some (take (length (rest z2) - length (rest z)) (rest z2))))"
    by (auto simp: Plus_def)
  from rep_Cls_head [OF z] obtain num where
    n: "rest z2 = num @ rest z" "list_all is_num_char num" "1 \<le> length num"
       "rest z = [] \<or> \<not> is_num_char (hd (rest z))" by auto
  from ms_Lit_sound [OF z1] obtain P where
    P: "rest x = P @ rest z1" "is_word_ci ''Population'' P" by blast
  from white_space_sound [OF z2] obtain w where
    w: "rest z1 = w @ rest z2" "list_all is_space w" by blast
  from n(1) have tk: "take (length (rest z2) - length (rest z)) (rest z2) = num" by simp
  from n(3) have nn: "num \<noteq> []" by auto
  from P w n y have "rest x = (P @ w @ num) @ rest y" by simp
  moreover from P w n nn have "population_phrase num (P @ w @ num)"
    unfolding population_phrase_def by blast
  moreover from y tk have "caps y n = Some num" by simp
  moreover from y n(4) have "rest y = [] \<or> \<not> is_num_char (hd (rest y))" by simp
  ultimately show ?thesis by blast
qed

lemma ms_Opt_skip: "x \<in> set (ms (Opt r) x)"
  unfolding Opt_def by (simp, subst rep_ms.simps) (simp add: Let_def)

lemma rep_ms_max0: "rep_ms m gs mn (Some 0) x = [x]"
  by (subst rep_ms.simps) simp

lemma ms_Opt_take:
  assumes "z \<in> set (ms r (clear_caps (groups r) x))" "length (rest z) < length (rest x)"
  shows "z \<in> set (ms (Opt r) x)"
proof -
  have "ms (Opt r) x = rep_ms (ms r) (groups r) 0 (Some 1) x" by (simp add: Opt_def)
  also have "\<dots> = concat (map (\<lambda>y. if \<not> length (rest y) < length (rest x) then []
        else [y]) (ms r (clear_caps (groups r) x))) @ [x]"
    by (subst rep_ms.simps) (simp add: Let_def dec_max_def rep_ms_max0 cong: if_cong)
  finally show ?thesis using assms by auto
qed

lemma ms_Opt_cases:
  assumes "z \<in> set (ms (Opt r) x)"
  shows "z = x \<or> z \<in> set (ms r (clear_caps (groups r) x))"
proof -
  have "ms (Opt r) x = rep_ms (ms r) (groups r) 0 (Some 1) x" by (simp add: Opt_def)
  also have "\<dots> = concat (map (\<lambda>y. if \<not> length (rest y) < length (rest x) then []
        else [y]) (ms r (clear_caps (groups r) x))) @ [x]"
    by (subst rep_ms.simps) (simp add: Let_def dec_max_def rep_ms_max0 cong: if_cong)
  finally show ?thesis using assms by (auto split: if_splits)
qed

lemma total_prefix_sound:
  assumes "z \<in> set (ms (Seq (Lit ChrI ''Total'') (Star ws_rx)) x)"
  shows "\<exists>T w. rest x = T @ w @ rest z \<and> is_word_ci ''Total'' T \<and> list_all is_space w"
proof -
  from assms obtain z1 where z1: "z1 \<in> set (ms (Lit ChrI ''Total'') x)" and
    z: "z \<in> set (ms (Star ws_rx) z1)" unfolding ms_Seq_iff by blast
  from ms_Lit_sound [OF z1] obtain T where "rest x = T @ rest z1" "is_word_ci ''Total'' T"
    by blast
  moreover from white_space_sound [OF z] obtain w where
    "rest z1 = w @ rest z" "list_all is_space w" by blast
  ultimately show ?thesis by auto
qed

lemma total_prefix_complete:
  assumes "is_word_ci ''Total'' T" "list_all is_space w"
  shows "\<exists>pv'. MState pv' t c \<in>
           set (ms (Seq (Lit ChrI ''Total'') (Star ws_rx)) (MState pv (T @ w @ t) c))"
proof -
  from ms_Lit_complete [OF assms(1), of pv "w @ t" c] obtain p1 where
    "ms (Lit ChrI ''Total'') (MState pv (T @ w @ t) c) = [MState p1 (w @ t) c]" by blast
  then have
    1: "MState p1 (w @ t) c \<in> set (ms (Lit ChrI ''Total'') (MState pv (T @ w @ t) c))"
    by (simp del: Lit.simps)
  from white_space_complete [OF assms(2), of t c p1] obtain p2 where
    "MState p2 t c \<in> set (ms (Star ws_rx) (MState p1 (w @ t) c))" by blast
  with 1 show ?thesis unfolding ms_Seq_iff by blast
qed

lemma total_opt_head:
  assumes "ms total_opt_rx x = y # ys"
  shows "\<exists>f num. rest x = f @ rest y \<and> sweep_phrase num f \<and> caps y 2 = Some num \<and>
           (rest y = [] \<or> \<not> is_num_char (hd (rest y)))"
proof -
  let ?G = "Grp 1 (Seq (Lit ChrI ''Total'') (Star ws_rx))"
  from ms_Seq_head [OF assms [unfolded total_opt_rx_def]] obtain z ys' where
    z: "z \<in> set (ms (Opt ?G) x)" and
    t: "ms (Seq (Lit ChrI ''Population'')
        (Seq (Star ws_rx) (Grp 2 (Plus (Cls is_num_char))))) z = y # ys'" by blast
  from population_tail_head [OF t] obtain p num where
    p: "rest z = p @ rest y" "population_phrase num p" "caps y 2 = Some num"
       "rest y = [] \<or> \<not> is_num_char (hd (rest y))" by blast
  from ms_Opt_cases [OF z] show ?thesis
  proof
    assume "z = x"
    with p have "rest x = p @ rest y" "sweep_phrase num p" by (simp_all add: sweep_phrase_def)
    with p(3,4) show ?thesis by blast
  next
    assume a: "z \<in> set (ms ?G (clear_caps (groups ?G) x))"
    from a [unfolded ms_Grp_iff] obtain z' where
      z': "z' \<in> set (ms (Seq (Lit ChrI ''Total'') (Star ws_rx)) (clear_caps (groups ?G) x))"
      "z = MState (prev z') (rest z') ((caps z')(1 := Some
          (take (length (rest (clear_caps (groups ?G) x)) - length (rest z'))
             (rest (clear_caps (groups ?G) x)))))"
      by blast
    from z'(2) have "rest z = rest z'" by simp
    from total_prefix_sound [OF z'(1)] this obtain T w where
      T: "rest x = T @ w @ rest z" "is_word_ci ''Total'' T" "list_all is_space w" by auto
    from T p have "rest x = (T @ w @ p) @ rest y" by simp
    moreover from T p have "sweep_phrase num (T @ w @ p)"
      unfolding sweep_phrase_def total_population_phrase_def by blast
    ultimately show ?thesis using p(3,4) by blast
  qed
qed

lemma total_opt_complete:
  assumes "sweep_phrase num f"
  shows "ms total_opt_rx (MState pv (f @ t) c) \<noteq> []"
proof -
  let ?G = "Grp 1 (Seq (Lit ChrI ''Total'') (Star ws_rx))"
  let ?x = "MState pv (f @ t) c"
  have "\<exists>z \<in> set (ms (Opt ?G) ?x). ms (Seq (Lit ChrI ''Population'')
        (Seq (Star ws_rx) (Grp 2 (Plus (Cls is_num_char))))) z \<noteq> []"
  proof (cases "population_phrase num f")
    case True
    from population_tail_complete [OF True, of 2 pv t c] ms_Opt_skip [of ?x ?G]
    show ?thesis by blast
  next
    case False
    with assms obtain T w p where f: "f = T @ w @ p" and
      T: "is_word_ci ''Total'' T" "list_all is_space w" "population_phrase num p"
      unfolding sweep_phrase_def total_population_phrase_def by blast
    let ?c = "\<lambda>n. if n \<in> set (groups ?G) then None else c n"
    have cc: "clear_caps (groups ?G) ?x = MState pv (T @ w @ p @ t) ?c"
      by (simp add: clear_caps_def f cong: if_cong)
    from total_prefix_complete [OF T(1,2), of "p @ t" ?c pv] obtain pv' where
      z0: "MState pv' (p @ t) ?c \<in>
         set (ms (Seq (Lit ChrI ''Total'') (Star ws_rx)) (clear_caps (groups ?G) ?x))"
      unfolding cc by blast
    define z where "z = MState (prev (MState pv' (p @ t) ?c)) (rest (MState pv' (p @ t) ?c))
        ((caps (MState pv' (p @ t) ?c))(1 := Some
          (take (length (rest (clear_caps (groups ?G) ?x)) - length (rest (MState pv' (p @ t) ?c)))
             (rest (clear_caps (groups ?G) ?x)))))"
    from z0 have "z \<in> set (ms ?G (clear_caps (groups ?G) ?x))"
      unfolding ms_Grp_iff z_def by blast
    moreover have "rest z = p @ t" by (simp add: z_def)
    ultimately have z: "z \<in> set (ms ?G (clear_caps (groups ?G) ?x))" "rest z = p @ t" .
    from is_word_ci_length [OF T(1)] have "0 < length T" by simp
    with z(2) f have "length (rest z) < length (rest ?x)" by simp
    from ms_Opt_take [OF z(1) this] have zin: "z \<in> set (ms (Opt ?G) ?x)" .
    from population_tail_complete [OF T(3), of 2 "prev z" t "caps z"] z(2)
    have "ms (Seq (Lit ChrI ''Population'')
        (Seq (Star ws_rx) (Grp 2 (Plus (Cls is_num_char))))) z \<noteq> []"
      by (cases z) simp
    with zin show ?thesis by blast
  qed
  then obtain z y where "z \<in> set (ms (Opt ?G) ?x)"
    "y \<in> set (ms (Seq (Lit ChrI ''Population'')
        (Seq (Star ws_rx) (Grp 2 (Plus (Cls is_num_char))))) z)"
    by (metis list.set_intros(1) neq_Nil_conv)
  then have "y \<in> set (ms total_opt_rx ?x)" unfolding total_opt_rx_def ms_Seq_iff by blast
  then show ?thesis by (rule in_set_not_Nil)
qed

lemma total_head:
  assumes "ms total_rx x = y # ys"
  shows "\<exists>f num. rest x = f @ rest y \<and> total_population_phrase num f \<and> caps y 1 = Some num \<and>
           (rest y = [] \<or> \<not> is_num_char (hd (rest y)))"
proof -
  from ms_Seq_head [OF assms [unfolded total_rx_def]] obtain z1 ys1 where
    z1: "z1 \<in> set (ms (Lit ChrI ''Total'') x)" and
    t1: "ms (Seq (Star ws_rx) (Seq (Lit ChrI ''Population'')
        (Seq (Star ws_rx) (Grp 1 (Plus (Cls is_num_char)))))) z1 = y # ys1" by blast
  from ms_Seq_head [OF t1] obtain z2 ys2 where
    z2: "z2 \<in> set (ms (Star ws_rx) z1)" and
    t2: "ms (Seq (Lit ChrI ''Population'')
        (Seq (Star ws_rx) (Grp 1 (Plus (Cls is_num_char))))) z2 = y # ys2" by blast
  from population_tail_head [OF t2] obtain p num where
    p: "rest z2 = p @ rest y" "population_phrase num p" "caps y 1 = Some num"
       "rest y = [] \<or> \<not> is_num_char (hd (rest y))" by blast
  from ms_Lit_sound [OF z1] obtain T where T: "rest x = T @ rest z1" "is_word_ci ''Total'' T"
    by blast
  from white_space_sound [OF z2] obtain w where
    w: "rest z1 = w @ rest z2" "list_all is_space w" by blast
  from T w p have "rest x = (T @ w @ p) @ rest y" by simp
  moreover from T w p have "total_population_phrase num (T @ w @ p)"
    unfolding total_population_phrase_def by blast
  ultimately show ?thesis using p(3,4) by blast
qed

lemma total_complete:
  assumes "total_population_phrase num f"
  shows "ms total_rx (MState pv (f @ t) c) \<noteq> []"
proof -
  from assms obtain T w p where f: "f = T @ w @ p" and
    T: "is_word_ci ''Total'' T" "list_all is_space w" "population_phrase num p"
    unfolding total_population_phrase_def by blast
  from ms_Lit_complete [OF T(1), of pv "w @ p @ t" c] obtain p1 where
    "ms (Lit ChrI ''Total'') (MState pv (T @ w @ p @ t) c) = [MState p1 (w @ p @ t) c]" by blast
  then have
    1: "MState p1 (w @ p @ t) c \<in> set (ms (Lit ChrI ''Total'') (MState pv (f @ t) c))"
    unfolding f by (simp del: Lit.simps)
  from white_space_complete [OF T(2), of "p @ t" c p1] obtain p2 where
    2: "MState p2 (p @ t) c \<in> set (ms (Star ws_rx) (MState p1 (w @ p @ t) c))" by blast
  from population_tail_complete [OF T(3), of 1 p2 t c] obtain y where
    3: "y \<in> set (ms (Seq (Lit ChrI ''Population'')
        (Seq (Star ws_rx) (Grp 1 (Plus (Cls is_num_char))))) (MState p2 (p @ t) c))"
    by (metis list.set_intros(1) neq_Nil_conv)
  from 1 2 3 have "y \<in> set (ms total_rx (MState pv (f @ t) c))"
    unfolding total_rx_def ms_Seq_iff by blast
  then show ?thesis by (rule in_set_not_Nil)
qed

subsection \<open>What the extractors return\<close>

text \<open>Both extractors are an \<^verbatim>\<open>exec\<close> of a pattern whose first result, at any position, is a
  phrase with its number in group \<open>k\<close>, the number running as far as it can.\<close>

lemma exec_first_phrase:
  assumes head: "\<And>x y ys. ms r x = y # ys \<Longrightarrow>
      \<exists>f num. rest x = f @ rest y \<and> phrase num f \<and> caps y k = Some num \<and>
           (rest y = [] \<or> \<not> is_num_char (hd (rest y)))"
    and complete: "\<And>n f pv t. phrase n f \<Longrightarrow> ms r (MState pv (f @ t) (\<lambda>_. None)) \<noteq> []"
    and align: "\<And>num f n' g t u. phrase num f \<Longrightarrow> phrase n' g \<Longrightarrow> f @ t = g @ u \<Longrightarrow>
      \<exists>h. f = h @ num \<and> g = h @ n' \<and> num @ t = n' @ u"
    and num: "\<And>n f. phrase n f \<Longrightarrow> list_all is_num_char n"
    and k: "0 < k" "k \<le> length (groups r)"
    and m: "exec r t = Some m"
  shows "\<exists>f num. leftmost_longest (\<lambda>f. \<exists>n. phrase n f) t f \<and> phrase num f \<and>
           group_text m k = num"
proof -
  from search_leftmost [OF m [unfolded exec_def]] obtain s1 s2 y ys where
    t: "t = s1 @ s2" and
    y: "ms r (MState (if s1 = [] then None else Some (last s1)) s2 (\<lambda>_. None)) = y # ys" and
    g: "m_groups m = Some (take (length s2 - length (rest y)) s2) #
          map (caps y) [1 ..< Suc (length (groups r))]" and
    l: "\<forall>a b. t = a @ b \<and> length a < length s1 \<longrightarrow>
          ms r (MState (if a = [] then None else Some (last a)) b (\<lambda>_. None)) = []"
    by blast
  from head [OF y] obtain f num where
    f: "s2 = f @ rest y" "phrase num f" "caps y k = Some num"
       "rest y = [] \<or> \<not> is_num_char (hd (rest y))" by auto
  from k obtain j where j: "k = Suc j" "j < length (groups r)" by (cases k) auto
  then have "(map (caps y) [1 ..< Suc (length (groups r))]) ! j = caps y k"
    by (simp del: upt_Suc)
  with g j f(3) have gt: "group_text m k = num" by (simp add: group_text_def del: upt_Suc)
  have "\<forall>pre' f' post'. t = pre' @ f' @ post' \<and> (\<exists>n. phrase n f') \<longrightarrow>
      length s1 \<le> length pre' \<and> (length pre' = length s1 \<longrightarrow> length f' \<le> length f)"
  proof (intro allI impI)
    fix pre' f' post'
    assume a: "t = pre' @ f' @ post' \<and> (\<exists>n. phrase n f')"
    then obtain n where n: "phrase n f'" by blast
    have 1: "length s1 \<le> length pre'"
    proof (rule ccontr)
      assume "\<not> length s1 \<le> length pre'"
      with a l have "ms r (MState (if pre' = [] then None else Some (last pre'))
          (f' @ post') (\<lambda>_. None)) = []" by simp
      with complete [OF n] show False by simp
    qed
    have 2: "length pre' = length s1 \<longrightarrow> length f' \<le> length f"
    proof
      assume "length pre' = length s1"
      with a t have "s2 = f' @ post'" by simp
      with f have e: "f @ rest y = f' @ post'" by simp
      from align [OF f(2) n e] obtain h where
        "f = h @ num" "f' = h @ n" "num @ rest y = n @ post'" by blast
      from aligned_longest [OF this num [OF f(2)] num [OF n] f(4)]
      show "length f' \<le> length f" .
    qed
    from 1 2 show "length s1 \<le> length pre' \<and>
        (length pre' = length s1 \<longrightarrow> length f' \<le> length f)" by simp
  qed
  moreover from t f have "t = s1 @ f @ rest y" by simp
  ultimately have "leftmost_longest (\<lambda>f. \<exists>n. phrase n f) t f"
    unfolding leftmost_longest_def using f(2) by blast
  with f(2) gt show ?thesis by blast
qed

lemma exec_no_phrase:
  assumes head: "\<And>x y ys. ms r x = y # ys \<Longrightarrow>
      \<exists>f num. rest x = f @ rest y \<and> phrase num f \<and> caps y k = Some num \<and>
           (rest y = [] \<or> \<not> is_num_char (hd (rest y)))"
    and complete: "\<And>n f pv t. phrase n f \<Longrightarrow> ms r (MState pv (f @ t) (\<lambda>_. None)) \<noteq> []"
  shows "exec r t = None \<longleftrightarrow> \<not> (\<exists>pre f post n. t = pre @ f @ post \<and> phrase n f)"
proof
  assume n: "exec r t = None"
  show "\<not> (\<exists>pre f post n. t = pre @ f @ post \<and> phrase n f)"
  proof
    assume "\<exists>pre f post n. t = pre @ f @ post \<and> phrase n f"
    then obtain pre f post n where t: "t = pre @ f @ post" and f: "phrase n f" by blast
    from complete [OF f, of "if pre = [] then None else Some (last pre)" post]
    have "ms r (MState (if pre = [] then None else Some (last pre)) (f @ post) (\<lambda>_. None)) \<noteq> []" .
    from search_complete [OF this refl, of "[]"] n t
    show False by (simp add: exec_def)
  qed
next
  assume a: "\<not> (\<exists>pre f post n. t = pre @ f @ post \<and> phrase n f)"
  show "exec r t = None"
  proof (rule ccontr)
    assume "exec r t \<noteq> None"
    then obtain m where "search r [] None t = Some m" by (auto simp: exec_def)
    from search_sound [OF this] obtain s1 s2 pv' y ys where
      t: "t = s1 @ s2" and y: "ms r (MState pv' s2 (\<lambda>_. None)) = y # ys" by blast
    from head [OF y] obtain f num where "s2 = f @ rest y" "phrase num f" by auto
    with t a show False by blast
  qed
qed

lemma first_phrase_unique:
  assumes align: "\<And>num f n' g t u. phrase num f \<Longrightarrow> phrase n' g \<Longrightarrow> f @ t = g @ u \<Longrightarrow>
      \<exists>h. f = h @ num \<and> g = h @ n' \<and> num @ t = n' @ u"
    and "first_phrase phrase t num" "first_phrase phrase t n'"
  shows "n' = num"
proof -
  from assms(2) obtain f where
    f: "leftmost_longest (\<lambda>f. \<exists>n. phrase n f) t f" "phrase num f"
    unfolding first_phrase_def by blast
  from assms(3) obtain g where
    g: "leftmost_longest (\<lambda>f. \<exists>n. phrase n f) t g" "phrase n' g"
    unfolding first_phrase_def by blast
  from leftmost_longest_unique [OF f(1) g(1)] have "f @ [] = g @ []" by simp
  from align [OF f(2) g(2) this] show ?thesis by auto
qed

lemma groups_total_opt_rx: "groups total_opt_rx = [1, 2]"
  by (simp add: total_opt_rx_def Opt_def Star_def Plus_def ws_rx_def)

lemma groups_total_rx: "groups total_rx = [1]"
  by (simp add: total_rx_def Star_def Plus_def ws_rx_def)

lemma exec_total_opt_None:
  "exec total_opt_rx t = None \<longleftrightarrow> \<not> (\<exists>pre f post n. t = pre @ f @ post \<and> sweep_phrase n f)"
proof (rule exec_no_phrase [where k = 2])
  fix x y ys
  assume "ms total_opt_rx x = y # ys"
  then show "\<exists>f num. rest x = f @ rest y \<and> sweep_phrase num f \<and> caps y 2 = Some num \<and>
      (rest y = [] \<or> \<not> is_num_char (hd (rest y)))" by (rule total_opt_head)
next
  fix n f pv t
  assume "sweep_phrase n f"
  then show "ms total_opt_rx (MState pv (f @ t) (\<lambda>_. None)) \<noteq> []" by (rule total_opt_complete)
qed

lemma exec_total_None:
  "exec total_rx t = None \<longleftrightarrow>
     \<not> (\<exists>pre f post n. t = pre @ f @ post \<and> total_population_phrase n f)"
proof (rule exec_no_phrase [where k = 1])
  fix x y ys
  assume "ms total_rx x = y # ys"
  then show "\<exists>f num. rest x = f @ rest y \<and> total_population_phrase num f \<and>
      caps y 1 = Some num \<and> (rest y = [] \<or> \<not> is_num_char (hd (rest y)))" by (rule total_head)
next
  fix n f pv t
  assume "total_population_phrase n f"
  then show "ms total_rx (MState pv (f @ t) (\<lambda>_. None)) \<noteq> []" by (rule total_complete)
qed

lemma exec_total_opt_first:
  assumes "exec total_opt_rx t = Some m"
  shows "\<exists>f num. leftmost_longest (\<lambda>f. \<exists>n. sweep_phrase n f) t f \<and> sweep_phrase num f \<and>
           group_text m 2 = num"
proof (rule exec_first_phrase [where r = total_opt_rx])
  fix x y ys
  assume "ms total_opt_rx x = y # ys"
  then show "\<exists>f num. rest x = f @ rest y \<and> sweep_phrase num f \<and> caps y 2 = Some num \<and>
      (rest y = [] \<or> \<not> is_num_char (hd (rest y)))" by (rule total_opt_head)
next
  fix n f pv t
  assume "sweep_phrase n f"
  then show "ms total_opt_rx (MState pv (f @ t) (\<lambda>_. None)) \<noteq> []" by (rule total_opt_complete)
next
  fix num f n' g t u
  assume "sweep_phrase num f" "sweep_phrase n' g" "f @ t = g @ u"
  then show "\<exists>h. f = h @ num \<and> g = h @ n' \<and> num @ t = n' @ u" by (rule sweep_align)
next
  fix n f
  assume "sweep_phrase n f"
  then show "list_all is_num_char n" by (simp add: sweep_num)
next
  show "0 < (2::nat)" by simp
  show "2 \<le> length (groups total_opt_rx)" by (simp add: groups_total_opt_rx)
  show "exec total_opt_rx t = Some m" by (rule assms)
qed

lemma exec_total_first:
  assumes "exec total_rx t = Some m"
  shows "\<exists>f num. leftmost_longest (\<lambda>f. \<exists>n. total_population_phrase n f) t f \<and>
           total_population_phrase num f \<and> group_text m 1 = num"
proof (rule exec_first_phrase [where r = total_rx])
  fix x y ys
  assume "ms total_rx x = y # ys"
  then show "\<exists>f num. rest x = f @ rest y \<and> total_population_phrase num f \<and>
      caps y 1 = Some num \<and> (rest y = [] \<or> \<not> is_num_char (hd (rest y)))" by (rule total_head)
next
  fix n f pv t
  assume "total_population_phrase n f"
  then show "ms total_rx (MState pv (f @ t) (\<lambda>_. None)) \<noteq> []" by (rule total_complete)
next
  fix num f n' g t u
  assume "total_population_phrase num f" "total_population_phrase n' g" "f @ t = g @ u"
  then show "\<exists>h. f = h @ num \<and> g = h @ n' \<and> num @ t = n' @ u" by (rule total_align)
next
  fix n f
  assume "total_population_phrase n f"
  then show "list_all is_num_char n"
    unfolding total_population_phrase_def using population_num by blast
next
  show "0 < (1::nat)" by simp
  show "1 \<le> length (groups total_rx)" by (simp add: groups_total_rx)
  show "exec total_rx t = Some m" by (rule assms)
qed

lemma extractTotal_sweep_first:
  "(\<exists>pre f post n. t = pre @ f @ post \<and> sweep_phrase n f) \<Longrightarrow>
   \<exists>num. first_phrase sweep_phrase t num \<and> extractTotal_sweep t = cleanNum num"
proof -
  assume "\<exists>pre f post n. t = pre @ f @ post \<and> sweep_phrase n f"
  with exec_total_opt_None [of t] obtain m where m: "exec total_opt_rx t = Some m" by auto
  from exec_total_opt_first [OF m]
  obtain f num where "leftmost_longest (\<lambda>f. \<exists>n. sweep_phrase n f) t f" "sweep_phrase num f"
    "group_text m 2 = num" by blast
  with m show ?thesis unfolding first_phrase_def extractTotal_sweep_def by auto
qed

lemma extractTotal_first:
  "(\<exists>pre f post n. t = pre @ f @ post \<and> total_population_phrase n f) \<Longrightarrow>
   \<exists>num. first_phrase total_population_phrase t num \<and> extractTotal t = cleanNum num"
proof -
  assume "\<exists>pre f post n. t = pre @ f @ post \<and> total_population_phrase n f"
  with exec_total_None [of t] obtain m where m: "exec total_rx t = Some m" by auto
  from exec_total_first [OF m]
  obtain f num where "leftmost_longest (\<lambda>f. \<exists>n. total_population_phrase n f) t f"
    "total_population_phrase num f" "group_text m 1 = num" by blast
  with m show ?thesis unfolding first_phrase_def extractTotal_def by auto
qed

lemma extractTotal_sweep_None:
  "\<not> (\<exists>pre f post n. t = pre @ f @ post \<and> sweep_phrase n f) \<Longrightarrow> extractTotal_sweep t = None"
  using exec_total_opt_None [of t] by (simp add: extractTotal_sweep_def)

lemma extractTotal_None:
  "\<not> (\<exists>pre f post n. t = pre @ f @ post \<and> total_population_phrase n f) \<Longrightarrow>
   extractTotal t = None"
  using exec_total_None [of t] by (simp add: extractTotal_def)

text \<open>
  C4 (as amended).  The two variants that sweep every container match an optional Total
  before Population.  When the text holds a phrase (Population in any case, with or
  without Total and white space before it, then optional white space and a run of digits
  and commas), their extractor returns the number of the first phrase, separators
  stripped: of the phrase that starts leftmost, its run of digits and commas taken whole;
  that number is determined by the text.  Without a phrase it returns \<^verbatim>\<open>null\<close>.  So
  \<^verbatim>\<open>Population 123\<close> yields 123.  The extractor of \<^verbatim>\<open>api/scrapeSet.js\<close> and of the other
  variants that pick blocks by selector does the same for phrases that begin with the
  word Total, which it requires: \<^verbatim>\<open>Population 123\<close> yields \<^verbatim>\<open>null\<close>.
\<close>

theorem total_population_extractors:
  "((\<exists>pre f post n. t = pre @ f @ post \<and> sweep_phrase n f) \<longrightarrow>
      (\<exists>num. first_phrase sweep_phrase t num \<and> extractTotal_sweep t = cleanNum num)) \<and>
   (\<not> (\<exists>pre f post n. t = pre @ f @ post \<and> sweep_phrase n f) \<longrightarrow>
      extractTotal_sweep t = None) \<and>
   (\<forall>num n'. first_phrase sweep_phrase t num \<and> first_phrase sweep_phrase t n' \<longrightarrow> n' = num) \<and>
   ((\<exists>pre f post n. t = pre @ f @ post \<and> total_population_phrase n f) \<longrightarrow>
      (\<exists>num. first_phrase total_population_phrase t num \<and> extractTotal t = cleanNum num)) \<and>
   (\<not> (\<exists>pre f post n. t = pre @ f @ post \<and> total_population_phrase n f) \<longrightarrow>
      extractTotal t = None) \<and>
   (\<forall>num n'. first_phrase total_population_phrase t num \<and>
      first_phrase total_population_phrase t n' \<longrightarrow> n' = num) \<and>
   extractTotal_sweep ''Population 123'' = Some (Finite 123) \<and>
   extractTotal_sweep ''Total Population 18,361'' = Some (Finite 18361) \<and>
   extractTotal ''Total Population 18,361'' = Some (Finite 18361) \<and>
   extractTotal ''Population 123'' = None"
proof -
  have a: "extractTotal_sweep ''Population 123'' = Some (Finite 123)" by code_simp
  have b: "extractTotal_sweep ''Total Population 18,361'' = Some (Finite 18361)" by code_simp
  have c: "extractTotal ''Total Population 18,361'' = Some (Finite 18361)" by code_simp
  have d: "extractTotal ''Population 123'' = None" by code_simp
  have u1: "\<forall>num n'. first_phrase sweep_phrase t num \<and> first_phrase sweep_phrase t n' \<longrightarrow>
      n' = num"
    using first_phrase_unique [of sweep_phrase t, OF sweep_align] by blast
  have u2: "\<forall>num n'. first_phrase total_population_phrase t num \<and>
      first_phrase total_population_phrase t n' \<longrightarrow> n' = num"
    using first_phrase_unique [of total_population_phrase t, OF total_align] by blast
  from a b c d u1 u2 extractTotal_sweep_first [of t] extractTotal_sweep_None [of t]
    extractTotal_first [of t] extractTotal_None [of t]
  show ?thesis by blast
qed

theorem total_population_extractors_witness:
  "extractTotal_sweep ''Pop 7 population  4567,8x Total Population 1'' = Some (Finite 45678) \<and>
   (\<exists>num. first_phrase sweep_phrase ''Pop 7 population  4567,8x Total Population 1'' num \<and>
      cleanNum num = Some (Finite 45678)) \<and>
   extractTotal ''Pop 7 population  4567,8x Total Population 1'' = Some (Finite 1) \<and>
   (\<exists>num. first_phrase total_population_phrase
        ''Pop 7 population  4567,8x Total Population 1'' num \<and>
      cleanNum num = Some (Finite 1)) \<and>
   \<not> (\<exists>pre f post n. ''Pop 7'' = pre @ f @ post \<and> sweep_phrase n f) \<and>
   extractTotal_sweep ''Pop 7'' = None \<and>
   \<not> (\<exists>pre f post n. ''Population 4'' = pre @ f @ post \<and> total_population_phrase n f) \<and>
   extractTotal ''Population 4'' = None"
proof -
  let ?t = "''Pop 7 population  4567,8x Total Population 1''"
  have a: "extractTotal_sweep ?t = Some (Finite 45678)" by code_simp
  have b: "extractTotal ?t = Some (Finite 1)" by code_simp
  have p: "population_phrase ''4567,8'' ''population  4567,8''"
    unfolding population_phrase_def
    by (rule exI [of _ "''population''"], rule exI [of _ "''  ''"]) code_simp
  have q: "population_phrase ''1'' ''Population 1''"
    unfolding population_phrase_def
    by (rule exI [of _ "''Population''"], rule exI [of _ "'' ''"]) code_simp
  have "is_word_ci ''Total'' ''Total''" "list_all is_space '' ''" by code_simp+
  with q have r: "total_population_phrase ''1'' (''Total'' @ '' '' @ ''Population 1'')"
    unfolding total_population_phrase_def by blast
  have "?t = ''Pop 7 '' @ ''population  4567,8'' @ ''x Total Population 1''" by simp
  with p have e1: "\<exists>pre f post n. ?t = pre @ f @ post \<and> sweep_phrase n f"
    unfolding sweep_phrase_def by blast
  have "?t = ''Pop 7 population  4567,8x '' @ (''Total'' @ '' '' @ ''Population 1'') @ []" by simp
  with r have e2: "\<exists>pre f post n. ?t = pre @ f @ post \<and> total_population_phrase n f" by blast
  from total_population_extractors [of ?t] e1 a
  have 1: "\<exists>num. first_phrase sweep_phrase ?t num \<and> cleanNum num = Some (Finite 45678)"
    by auto
  from total_population_extractors [of ?t] e2 b
  have 2: "\<exists>num. first_phrase total_population_phrase ?t num \<and> cleanNum num = Some (Finite 1)"
    by auto
  have "exec total_opt_rx ''Pop 7'' = None" by code_simp
  then have h3: "\<not> (\<exists>pre f post n. ''Pop 7'' = pre @ f @ post \<and> sweep_phrase n f)"
    by (simp add: exec_total_opt_None)
  from total_population_extractors [of "''Pop 7''"] h3
  have 3: "extractTotal_sweep ''Pop 7'' = None" by blast
  have "exec total_rx ''Population 4'' = None" by code_simp
  then have h4: "\<not> (\<exists>pre f post n. ''Population 4'' = pre @ f @ post \<and>
      total_population_phrase n f)"
    by (simp add: exec_total_None)
  from total_population_extractors [of "''Population 4''"] h4
  have 4: "extractTotal ''Population 4'' = None" by blast
  from a b 1 2 3 4 h3 h4 show ?thesis by blast
qed

text \<open>
  The claim as stated, with its optional Total, is cited for \<^verbatim>\<open>api/scrapeSet.js\<close> as well.
  There the text \<^verbatim>\<open>Population 123\<close> yields \<^verbatim>\<open>null\<close>, not 123.
\<close>

theorem total_required_counterexample:
  "extractTotal ''Population 123'' = None \<and> extractTotal ''Population 123'' \<noteq> Some (Finite 123)"
proof -
  have "extractTotal ''Population 123'' = None" by code_simp
  then show ?thesis by simp
qed

end
